theory Spec2Isabelle
  imports Main "HOL-Library.Sublist"
begin

section \<open>The suffix automaton of \<open>algorithms/string/suffix_automaton.py\<close>\<close>

subsection \<open>Data model\<close>

text \<open>
  The failures the Python code can raise: an index outside a list, a key missing from a
  dictionary.
\<close>

datatype error = IndexError | KeyError

text \<open>
  \<open>class State\<close>: the dictionary \<open>next\<close> (here \<open>nxt\<close>, since \<open>next\<close> is a keyword of the
  proof language), the suffix link \<open>link\<close> (an index into the list of states, \<open>-1\<close> for
  "no link") and \<open>len\<close>. Indices are Python integers, so they are \<open>int\<close> here.
\<close>

record 'a state =
  nxt :: "'a \<rightharpoonup> int"
  link :: int
  len :: int

text \<open>\<open>State.__init__\<close>: empty dictionary, link \<open>-1\<close>, length \<open>0\<close>.\<close>

definition State :: "'a state" where
  "State = \<lparr>nxt = Map.empty, link = - 1, len = 0\<rparr>"

text \<open>
  \<open>class SuffixAutomaton\<close>: the list \<open>states\<close> and the index \<open>last\<close> (here \<open>last_st\<close>:
  \<open>last\<close> is a list function of HOL).
\<close>

record 'a suffix_automaton =
  states :: "'a state list"
  last_st :: int

text \<open>
  Python list indexing \<open>xs[i]\<close>: a negative index counts from the end, an index outside
  the list raises \<open>IndexError\<close>. The result is the position read or written.
\<close>

definition py_index :: "'b list \<Rightarrow> int \<Rightarrow> error + nat" where
  "py_index xs i =
     (let n = int (length xs); j = (if i < 0 then n + i else i)
      in if 0 \<le> j \<and> j < n then Inr (nat j) else Inl IndexError)"

subsection \<open>\<open>extend\<close>\<close>

text \<open>
  The first loop of \<open>extend\<close>:
  \<^verbatim>\<open>while p != -1 and ch not in self.states[p].next:
      self.states[p].next[ch] = cur
      p = self.states[p].link\<close>
  It returns the list of states and the final \<open>p\<close>. Every round gives one more state a
  transition on \<open>ch\<close>, so the loop ends on every input.
\<close>

function extend_walk ::
  "'a state list \<Rightarrow> 'a \<Rightarrow> int \<Rightarrow> int \<Rightarrow> error + ('a state list \<times> int)" where
  "extend_walk ss ch cur p =
     (if p = - 1 then Inr (ss, p)
      else case py_index ss p of
        Inl e \<Rightarrow> Inl e
      | Inr k \<Rightarrow>
          if nxt (ss ! k) ch \<noteq> None then Inr (ss, p)
          else extend_walk (ss[k := (ss ! k)\<lparr>nxt := (nxt (ss ! k))(ch \<mapsto> cur)\<rparr>]) ch cur
                 (link (ss ! k)))"
  by pat_completeness auto

lemma py_index_less: "py_index xs i = Inr k \<Longrightarrow> k < length xs"
  by (auto simp: py_index_def Let_def split: if_splits)

termination extend_walk
proof (relation "measure (\<lambda>(ss, ch, cur, p). card {i. i < length ss \<and> nxt (ss ! i) ch = None})",
    goal_cases)
  case 1
  show ?case by simp
next
  case (2 ss ch cur p k)
  let ?ss' = "ss[k := (ss ! k)\<lparr>nxt := (nxt (ss ! k))(ch \<mapsto> cur)\<rparr>]"
  let ?A = "{i. i < length ss \<and> nxt (ss ! i) ch = None}"
  let ?B = "{i. i < length ?ss' \<and> nxt (?ss' ! i) ch = None}"
  from 2 have k: "k < length ss" and none: "nxt (ss ! k) ch = None"
    by (auto dest: py_index_less)
  have "?B \<subseteq> ?A"
  proof
    fix i assume "i \<in> ?B"
    then have i: "i < length ss" and n: "nxt (?ss' ! i) ch = None" by simp_all
    have "i \<noteq> k" using n k by auto
    with n i show "i \<in> ?A" by simp
  qed
  moreover have "k \<in> ?A" using k none by simp
  moreover have "k \<notin> ?B" using k by simp
  ultimately have "?B \<subset> ?A" by blast
  moreover have "finite ?A" by simp
  ultimately have "card ?B < card ?A" by (rule psubset_card_mono[rotated])
  then show ?case by simp
qed

text \<open>
  The second loop of \<open>extend\<close>, in the branch that makes a clone:
  \<^verbatim>\<open>while p != -1 and self.states[p].next.get(ch, None) == q:
      self.states[p].next[ch] = clone
      p = self.states[p].link\<close>
  Nothing in the loop itself bounds the number of rounds (with \<open>clone = q\<close> and a cycle of
  links it would not end), so a run that does not end is the value \<open>None\<close>.
\<close>

partial_function (option) extend_redirect ::
  "'a state list \<Rightarrow> 'a \<Rightarrow> int \<Rightarrow> int \<Rightarrow> int \<Rightarrow> (error + ('a state list \<times> int)) option" where
  "extend_redirect ss ch q clone p =
     (if p = - 1 then Some (Inr (ss, p))
      else case py_index ss p of
        Inl e \<Rightarrow> Some (Inl e)
      | Inr k \<Rightarrow>
          if nxt (ss ! k) ch \<noteq> Some q then Some (Inr (ss, p))
          else extend_redirect (ss[k := (ss ! k)\<lparr>nxt := (nxt (ss ! k))(ch \<mapsto> clone)\<rparr>])
                 ch q clone (link (ss ! k)))"

declare extend_redirect.simps [code]

text \<open>
  \<open>self.states[i].link = v\<close> and \<open>self.states[i].len = v\<close>, \<open>self.states[i].next = m\<close>:
  the list is indexed, then the field of that state is assigned.
\<close>

definition set_link :: "'a state list \<Rightarrow> int \<Rightarrow> int \<Rightarrow> error + 'a state list" where
  "set_link ss i v =
     (case py_index ss i of Inl e \<Rightarrow> Inl e | Inr k \<Rightarrow> Inr (ss[k := (ss ! k)\<lparr>link := v\<rparr>]))"

definition set_len :: "'a state list \<Rightarrow> int \<Rightarrow> int \<Rightarrow> error + 'a state list" where
  "set_len ss i v =
     (case py_index ss i of Inl e \<Rightarrow> Inl e | Inr k \<Rightarrow> Inr (ss[k := (ss ! k)\<lparr>len := v\<rparr>]))"

definition set_nxt :: "'a state list \<Rightarrow> int \<Rightarrow> ('a \<rightharpoonup> int) \<Rightarrow> error + 'a state list" where
  "set_nxt ss i m =
     (case py_index ss i of Inl e \<Rightarrow> Inl e | Inr k \<Rightarrow> Inr (ss[k := (ss ! k)\<lparr>nxt := m\<rparr>]))"

text \<open>\<open>self.states[i]\<close> read.\<close>

definition py_get :: "'b list \<Rightarrow> int \<Rightarrow> error + 'b" where
  "py_get xs i = (case py_index xs i of Inl e \<Rightarrow> Inl e | Inr k \<Rightarrow> Inr (xs ! k))"

text \<open>
  The branch of \<open>extend\<close> that makes a clone (the \<open>else\<close> of
  \<open>if self.states[p].len + 1 == self.states[q].len\<close>), statement by statement.
\<close>

definition extend_clone ::
  "'a state list \<Rightarrow> 'a \<Rightarrow> int \<Rightarrow> int \<Rightarrow> int \<Rightarrow> (error + 'a state list) option" where
  "extend_clone ss ch cur p q =
     (let clone = int (length ss); ss1 = ss @ [State] in
      case py_get ss1 q of Inl e \<Rightarrow> Some (Inl e) | Inr sq \<Rightarrow>
      case set_nxt ss1 clone (nxt sq) of Inl e \<Rightarrow> Some (Inl e) | Inr ss2 \<Rightarrow>
      case py_get ss2 p of Inl e \<Rightarrow> Some (Inl e) | Inr sp \<Rightarrow>
      case set_len ss2 clone (len sp + 1) of Inl e \<Rightarrow> Some (Inl e) | Inr ss3 \<Rightarrow>
      case py_get ss3 q of Inl e \<Rightarrow> Some (Inl e) | Inr sq' \<Rightarrow>
      case set_link ss3 clone (link sq') of Inl e \<Rightarrow> Some (Inl e) | Inr ss4 \<Rightarrow>
      case extend_redirect ss4 ch q clone p of None \<Rightarrow> None | Some (Inl e) \<Rightarrow> Some (Inl e)
      | Some (Inr (ss5, p')) \<Rightarrow>
      case set_link ss5 q clone of Inl e \<Rightarrow> Some (Inl e) | Inr ss6 \<Rightarrow>
      case set_link ss6 cur clone of Inl e \<Rightarrow> Some (Inl e) | Inr ss7 \<Rightarrow>
      Some (Inr ss7))"

text \<open>
  \<open>extend\<close>. The result is \<open>None\<close> when the call does not return, \<open>Some (Inl e)\<close> when it
  raises \<open>e\<close>, and \<open>Some (Inr A')\<close> when it returns, leaving the automaton \<open>A'\<close>.
\<close>

definition extend :: "'a suffix_automaton \<Rightarrow> 'a \<Rightarrow> (error + 'a suffix_automaton) option" where
  "extend A ch =
     (let cur = int (length (states A)); ss1 = states A @ [State] in
      case py_get ss1 (last_st A) of Inl e \<Rightarrow> Some (Inl e) | Inr sl \<Rightarrow>
      case set_len ss1 cur (len sl + 1) of Inl e \<Rightarrow> Some (Inl e) | Inr ss2 \<Rightarrow>
      case extend_walk ss2 ch cur (last_st A) of Inl e \<Rightarrow> Some (Inl e) | Inr (ss3, p) \<Rightarrow>
      if p = - 1 then
        (case set_link ss3 cur 0 of Inl e \<Rightarrow> Some (Inl e)
         | Inr ss4 \<Rightarrow> Some (Inr \<lparr>states = ss4, last_st = cur\<rparr>))
      else
        case py_get ss3 p of Inl e \<Rightarrow> Some (Inl e) | Inr sp \<Rightarrow>
        case nxt sp ch of None \<Rightarrow> Some (Inl KeyError) | Some q \<Rightarrow>
        case py_get ss3 q of Inl e \<Rightarrow> Some (Inl e) | Inr sq \<Rightarrow>
        if len sp + 1 = len sq then
          (case set_link ss3 cur q of Inl e \<Rightarrow> Some (Inl e)
           | Inr ss4 \<Rightarrow> Some (Inr \<lparr>states = ss4, last_st = cur\<rparr>))
        else
          (case extend_clone ss3 ch cur p q of None \<Rightarrow> None | Some (Inl e) \<Rightarrow> Some (Inl e)
           | Some (Inr ss4) \<Rightarrow> Some (Inr \<lparr>states = ss4, last_st = cur\<rparr>)))"

text \<open>
  The split case of \<open>extend\<close>: the first loop stops at a state \<open>p\<close> other than \<open>-1\<close>, and the
  state \<open>q = self.states[p].next[ch]\<close> has \<open>self.states[p].len + 1 \<noteq> self.states[q].len\<close>, so
  the call takes the branch that appends \<open>clone\<close>. It is the path condition of that branch
  of \<open>extend\<close>.
\<close>

definition split_case :: "'a suffix_automaton \<Rightarrow> 'a \<Rightarrow> bool" where
  "split_case A ch =
     (let cur = int (length (states A)); ss1 = states A @ [State] in
      case py_get ss1 (last_st A) of Inl e \<Rightarrow> False | Inr sl \<Rightarrow>
      case set_len ss1 cur (len sl + 1) of Inl e \<Rightarrow> False | Inr ss2 \<Rightarrow>
      case extend_walk ss2 ch cur (last_st A) of Inl e \<Rightarrow> False | Inr (ss3, p) \<Rightarrow>
      if p = - 1 then False
      else
        case py_get ss3 p of Inl e \<Rightarrow> False | Inr sp \<Rightarrow>
        case nxt sp ch of None \<Rightarrow> False | Some q \<Rightarrow>
        case py_get ss3 q of Inl e \<Rightarrow> False | Inr sq \<Rightarrow>
        len sp + 1 \<noteq> len sq)"

subsection \<open>Construction\<close>

text \<open>\<open>for ch in s: self.extend(ch)\<close>, stopping at the first call that fails.\<close>

fun extend_all :: "'a suffix_automaton \<Rightarrow> 'a list \<Rightarrow> (error + 'a suffix_automaton) option" where
  "extend_all A [] = Some (Inr A)"
| "extend_all A (ch # s) =
     (case extend A ch of None \<Rightarrow> None | Some (Inl e) \<Rightarrow> Some (Inl e)
      | Some (Inr A') \<Rightarrow> extend_all A' s)"

text \<open>\<open>SuffixAutomaton.__init__\<close>.\<close>

definition SuffixAutomaton :: "'a list \<Rightarrow> (error + 'a suffix_automaton) option" where
  "SuffixAutomaton s =
     (let A = \<lparr>states = [State], last_st = 0\<rparr>
      in if s \<noteq> [] then extend_all A s else Some (Inr A))"

subsection \<open>\<open>longest_common_substring\<close>\<close>

text \<open>
  The inner loop:
  \<^verbatim>\<open>while v != -1 and ch not in self.states[v].next:
      v = self.states[v].link
      if v != -1:
          l = self.states[v].len\<close>
  It returns the list of states (which no statement of it writes), \<open>v\<close> and \<open>l\<close>.
\<close>

partial_function (option) lcs_while ::
  "'a state list \<Rightarrow> 'a \<Rightarrow> int \<Rightarrow> int \<Rightarrow> (error + ('a state list \<times> int \<times> int)) option" where
  "lcs_while ss ch v l =
     (if v = - 1 then Some (Inr (ss, v, l))
      else case py_get ss v of
        Inl e \<Rightarrow> Some (Inl e)
      | Inr sv \<Rightarrow>
          if nxt sv ch \<noteq> None then Some (Inr (ss, v, l))
          else if link sv \<noteq> - 1 then
            (case py_get ss (link sv) of
               Inl e \<Rightarrow> Some (Inl e)
             | Inr sv' \<Rightarrow> lcs_while ss ch (link sv) (len sv'))
          else lcs_while ss ch (link sv) l)"

declare lcs_while.simps [code]

text \<open>The \<open>for ch in t\<close> loop, with the local variables \<open>v\<close>, \<open>l\<close> and \<open>best\<close>.\<close>

fun lcs_for ::
  "'a state list \<Rightarrow> 'a list \<Rightarrow> int \<Rightarrow> int \<Rightarrow> int \<Rightarrow> (error + ('a state list \<times> int)) option" where
  "lcs_for ss [] v l best = Some (Inr (ss, best))"
| "lcs_for ss (ch # t) v l best =
     (case lcs_while ss ch v l of
        None \<Rightarrow> None
      | Some (Inl e) \<Rightarrow> Some (Inl e)
      | Some (Inr (ss1, v1, l1)) \<Rightarrow>
          if v1 = - 1 then lcs_for ss1 t 0 0 best
          else case py_get ss1 v1 of
            Inl e \<Rightarrow> Some (Inl e)
          | Inr sv \<Rightarrow>
              (case nxt sv ch of
                 None \<Rightarrow> Some (Inl KeyError)
               | Some v2 \<Rightarrow>
                   let l2 = l1 + 1 in
                   lcs_for ss1 t v2 l2 (if l2 > best then l2 else best)))"

text \<open>
  \<open>longest_common_substring\<close>: the automaton after the call and the value returned.
\<close>

definition longest_common_substring ::
  "'a suffix_automaton \<Rightarrow> 'a list \<Rightarrow> (error + ('a suffix_automaton \<times> int)) option" where
  "longest_common_substring A t =
     (case lcs_for (states A) t 0 0 0 of
        None \<Rightarrow> None
      | Some (Inl e) \<Rightarrow> Some (Inl e)
      | Some (Inr (ss, best)) \<Rightarrow> Some (Inr (A\<lparr>states := ss\<rparr>, best)))"

section \<open>Specification-level notions\<close>

text \<open>
  Following the transitions from state \<open>v\<close> along the word \<open>w\<close>: the state reached, or
  \<open>None\<close> when some symbol has no transition. (States are list positions here; an index
  stored in \<open>next\<close> is turned into a position with \<open>nat\<close>, which is what Python indexing
  does for the indices of a well-formed automaton.)
\<close>

fun walk :: "'a state list \<Rightarrow> nat \<Rightarrow> 'a list \<Rightarrow> nat option" where
  "walk ss v [] = Some v"
| "walk ss v (c # w) = (case nxt (ss ! v) c of None \<Rightarrow> None | Some u \<Rightarrow> walk ss (nat u) w)"

text \<open>
  The walk of the claims about substring membership, with Python's indexing: from state
  \<open>v\<close>, consume \<open>w\<close> symbol by symbol through the \<open>next\<close> dictionaries; the walk
  succeeds when every symbol finds a transition.
\<close>

fun accepts :: "'a state list \<Rightarrow> int \<Rightarrow> 'a list \<Rightarrow> bool" where
  "accepts ss v [] = True"
| "accepts ss v (c # w) =
     (case py_get ss v of
        Inl e \<Rightarrow> False
      | Inr st \<Rightarrow> (case nxt st c of None \<Rightarrow> False | Some u \<Rightarrow> accepts ss u w))"


text \<open>
  The brute-force reference for \<open>longest_common_substring\<close>: the greatest length among
  the substrings of \<open>t\<close> (all of them, listed by \<open>sublists\<close>) that are substrings of \<open>s\<close>.
\<close>

definition lcs_brute :: "'a list \<Rightarrow> 'a list \<Rightarrow> nat" where
  "lcs_brute s t = Max (set (map length (filter (\<lambda>w. sublist w s) (sublists t))))"

text \<open>
  Well-formed lists of states: the initial state is at position \<open>0\<close> with length \<open>0\<close> and no
  link, every other state has a link to a position of the list, and every transition leads
  to a position of the list other than \<open>0\<close>.
\<close>

definition wf_states :: "'a state list \<Rightarrow> bool" where
  "wf_states ss \<longleftrightarrow>
     ss \<noteq> [] \<and> len (ss ! 0) = 0 \<and> link (ss ! 0) = - 1 \<and>
     (\<forall>i<length ss. 0 < i \<longrightarrow> 0 \<le> link (ss ! i) \<and> link (ss ! i) < int (length ss)) \<and>
     (\<forall>i<length ss. \<forall>c t. nxt (ss ! i) c = Some t \<longrightarrow> 0 < t \<and> t < int (length ss))"

text \<open>The length of the state a state links to; \<open>-1\<close> for the initial state.\<close>

definition llen :: "'a state list \<Rightarrow> nat \<Rightarrow> int" where
  "llen ss v = (if link (ss ! v) = - 1 then - 1 else len (ss ! nat (link (ss ! v))))"

text \<open>
  The invariant of the construction, for the string \<open>s\<close> read so far. \<open>rep v\<close> is the longest
  word that leads from the initial state to \<open>v\<close>. Every substring of \<open>s\<close> can be walked; the
  words that lead to \<open>v\<close> are the suffixes of \<open>rep v\<close> longer than the length of the state
  \<open>v\<close> links to; that state's longest word is a suffix of \<open>rep v\<close>; and \<open>last\<close> is the state
  of \<open>s\<close> itself.
\<close>

definition sam_inv :: "'a list \<Rightarrow> 'a state list \<Rightarrow> int \<Rightarrow> (nat \<Rightarrow> 'a list) \<Rightarrow> bool" where
  "sam_inv s ss lst rep \<longleftrightarrow>
     wf_states ss \<and> 0 \<le> lst \<and> lst < int (length ss) \<and>
     (\<forall>w. sublist w s \<longrightarrow> walk ss 0 w \<noteq> None) \<and>
     (\<forall>v<length ss. sublist (rep v) s \<and> len (ss ! v) = int (length (rep v))) \<and>
     (\<forall>v<length ss. \<forall>w. walk ss 0 w = Some v \<longleftrightarrow>
         suffix w (rep v) \<and> llen ss v < int (length w)) \<and>
     (\<forall>v<length ss. 0 < v \<longrightarrow>
         suffix (rep (nat (link (ss ! v)))) (rep v) \<and> len (ss ! nat (link (ss ! v))) < len (ss ! v)) \<and>
     rep (nat lst) = s"

text \<open>
  The list of states in the middle of the first loop of \<open>extend\<close>: the states of the
  suffixes of \<open>s\<close> whose length exceeds \<open>K\<close> have received the transition on \<open>ch\<close> to
  \<open>cur\<close>.
\<close>

definition mark ::
  "'a list \<Rightarrow> (nat \<Rightarrow> 'a list) \<Rightarrow> 'a \<Rightarrow> int \<Rightarrow> int \<Rightarrow> 'a state list \<Rightarrow> 'a state list" where
  "mark s rep ch cur K ss =
     map (\<lambda>i. if suffix (rep i) s \<and> K < len (ss ! i)
              then (ss ! i)\<lparr>nxt := (nxt (ss ! i))(ch \<mapsto> cur)\<rparr> else ss ! i) [0..<length ss]"

text \<open>The length of the state \<open>p\<close>, and \<open>-1\<close> when \<open>p\<close> is \<open>-1\<close>.\<close>

definition lenp :: "'a state list \<Rightarrow> int \<Rightarrow> int" where
  "lenp ss p = (if p = - 1 then - 1 else len (ss ! nat p))"

text \<open>
  The list of states in the middle of the second loop of \<open>extend\<close>: moreover, the states of
  the suffixes of \<open>s\<close> whose length is at most \<open>K\<close> and exceeds \<open>J\<close> have had their
  transition on \<open>ch\<close> redirected to \<open>clone\<close>.
\<close>

definition mark2 ::
  "'a list \<Rightarrow> (nat \<Rightarrow> 'a list) \<Rightarrow> 'a \<Rightarrow> int \<Rightarrow> int \<Rightarrow> int \<Rightarrow> int \<Rightarrow> 'a state list
     \<Rightarrow> 'a state list" where
  "mark2 s rep ch cur clone J K ss =
     map (\<lambda>i. if suffix (rep i) s \<and> K < len (ss ! i)
              then (ss ! i)\<lparr>nxt := (nxt (ss ! i))(ch \<mapsto> cur)\<rparr>
              else if suffix (rep i) s \<and> J < len (ss ! i)
              then (ss ! i)\<lparr>nxt := (nxt (ss ! i))(ch \<mapsto> clone)\<rparr>
              else ss ! i) [0..<length ss]"

section \<open>Basic facts about the operations\<close>

declare extend_walk.simps [simp del]

lemma py_index_valid: "0 \<le> i \<Longrightarrow> i < int (length xs) \<Longrightarrow> py_index xs i = Inr (nat i)"
  by (simp add: py_index_def Let_def)

lemma py_index_length: "py_index (xs @ [x]) (int (length xs)) = Inr (length xs)"
  by (simp add: py_index_def Let_def)

lemma set_link_frame:
  assumes "set_link ss i v = Inr ss'"
  shows "length ss' = length ss" "len (ss' ! j) = len (ss ! j)" "nxt (ss' ! j) = nxt (ss ! j)"
proof -
  from assms obtain k where k: "py_index ss i = Inr k" and ss': "ss' = ss[k := (ss ! k)\<lparr>link := v\<rparr>]"
    by (auto simp: set_link_def split: sum.splits)
  have kl: "k < length ss" using k by (rule py_index_less)
  show "length ss' = length ss" using ss' by simp
  show "len (ss' ! j) = len (ss ! j)" using ss' kl by (cases "j = k") simp_all
  show "nxt (ss' ! j) = nxt (ss ! j)" using ss' kl by (cases "j = k") simp_all
qed

lemma set_nxt_frame:
  assumes "set_nxt ss i m = Inr ss'"
  shows "length ss' = length ss" "len (ss' ! j) = len (ss ! j)" "link (ss' ! j) = link (ss ! j)"
proof -
  from assms obtain k where k: "py_index ss i = Inr k" and ss': "ss' = ss[k := (ss ! k)\<lparr>nxt := m\<rparr>]"
    by (auto simp: set_nxt_def split: sum.splits)
  have kl: "k < length ss" using k by (rule py_index_less)
  show "length ss' = length ss" using ss' by simp
  show "len (ss' ! j) = len (ss ! j)" using ss' kl by (cases "j = k") simp_all
  show "link (ss' ! j) = link (ss ! j)" using ss' kl by (cases "j = k") simp_all
qed

lemma set_len_frame:
  assumes "set_len ss i v = Inr ss'" and "py_index ss i = Inr k"
  shows "length ss' = length ss" "j \<noteq> k \<Longrightarrow> len (ss' ! j) = len (ss ! j)"
    "link (ss' ! j) = link (ss ! j)" "nxt (ss' ! j) = nxt (ss ! j)"
proof -
  from assms have ss': "ss' = ss[k := (ss ! k)\<lparr>len := v\<rparr>]"
    by (auto simp: set_len_def split: sum.splits)
  have kl: "k < length ss" using assms(2) by (rule py_index_less)
  show "length ss' = length ss" using ss' by simp
  show "j \<noteq> k \<Longrightarrow> len (ss' ! j) = len (ss ! j)" using ss' by simp
  show "link (ss' ! j) = link (ss ! j)" using ss' kl by (cases "j = k") simp_all
  show "nxt (ss' ! j) = nxt (ss ! j)" using ss' kl by (cases "j = k") simp_all
qed

lemma set_len_Inr: "set_len ss i v = Inr ss' \<Longrightarrow> \<exists>k. py_index ss i = Inr k"
  by (auto simp: set_len_def split: sum.splits)

lemma extend_redirect_frame_aux:
  "extend_redirect ss ch q clone p = Some r \<Longrightarrow>
     (\<forall>ss' p'. r = Inr (ss', p') \<longrightarrow> length ss' = length ss \<and>
        (\<forall>i. len (ss' ! i) = len (ss ! i) \<and> link (ss' ! i) = link (ss ! i) \<and>
          (\<forall>c. nxt (ss' ! i) c = nxt (ss ! i) c \<or> nxt (ss' ! i) c = Some clone)))"
proof (rule extend_redirect.raw_induct[where P = "\<lambda>ss ch q clone p r.
     (\<forall>ss' p'. r = Inr (ss', p') \<longrightarrow> length ss' = length ss \<and>
        (\<forall>i. len (ss' ! i) = len (ss ! i) \<and> link (ss' ! i) = link (ss ! i) \<and>
          (\<forall>c. nxt (ss' ! i) c = nxt (ss ! i) c \<or> nxt (ss' ! i) c = Some clone)))"], goal_cases)
  case (1 f ss0 ch0 q0 clone0 p0 r0)
  note IH = 1(2) and eq = 1(3)
  show ?case
  proof (intro allI impI)
    fix ss' p' assume r: "r0 = Inr (ss', p')"
    let ?G = "length ss' = length ss0 \<and>
        (\<forall>i. len (ss' ! i) = len (ss0 ! i) \<and> link (ss' ! i) = link (ss0 ! i) \<and>
          (\<forall>c. nxt (ss' ! i) c = nxt (ss0 ! i) c \<or> nxt (ss' ! i) c = Some clone0))"
    from eq r consider (stop) "ss' = ss0"
      | (step) k where "py_index ss0 p0 = Inr k"
          "f (ss0[k := (ss0 ! k)\<lparr>nxt := (nxt (ss0 ! k))(ch0 \<mapsto> clone0)\<rparr>]) ch0 q0 clone0 (link (ss0 ! k)) = Some (Inr (ss', p'))"
      by (simp split: if_splits sum.splits)
    then show ?G
    proof cases
      case stop
      then show ?thesis by simp
    next
      case step
      let ?ss1 = "ss0[k := (ss0 ! k)\<lparr>nxt := (nxt (ss0 ! k))(ch0 \<mapsto> clone0)\<rparr>]"
      have kl: "k < length ss0" using step(1) by (rule py_index_less)
      from IH[OF step(2)] have a: "length ss' = length ?ss1"
        and b: "\<And>i. len (ss' ! i) = len (?ss1 ! i)" "\<And>i. link (ss' ! i) = link (?ss1 ! i)"
        and c: "\<And>i c. nxt (ss' ! i) c = nxt (?ss1 ! i) c \<or> nxt (ss' ! i) c = Some clone0"
        by simp_all
      have d: "len (?ss1 ! i) = len (ss0 ! i)" "link (?ss1 ! i) = link (ss0 ! i)" for i
        using kl by (cases "i = k"; simp)+
      have e: "nxt (?ss1 ! i) c = nxt (ss0 ! i) c \<or> nxt (?ss1 ! i) c = Some clone0" for i c
        using kl by (cases "i = k"; simp)
      show ?thesis using a b c[of _ _] d e by (metis length_list_update)
    qed
  qed
qed

lemma extend_redirect_frame:
  assumes "extend_redirect ss ch q clone p = Some (Inr (ss', p'))"
  shows "length ss' = length ss" "len (ss' ! i) = len (ss ! i)" "link (ss' ! i) = link (ss ! i)"
    "nxt (ss' ! i) c = nxt (ss ! i) c \<or> nxt (ss' ! i) c = Some clone"
  using extend_redirect_frame_aux[OF assms] by simp_all

lemma lcs_while_states_aux:
  "lcs_while ss ch v l = Some r \<Longrightarrow> (\<forall>ss' v' l'. r = Inr (ss', v', l') \<longrightarrow> ss' = ss)"
proof (rule lcs_while.raw_induct[where P = "\<lambda>ss ch v l r. \<forall>ss' v' l'. r = Inr (ss', v', l') \<longrightarrow> ss' = ss"], goal_cases)
  case (1 f ss0 ch0 v0 l0 r0)
  note IH = 1(2) and eq = 1(3)
  show ?case
  proof (intro allI impI)
    fix ss' v' l' assume r: "r0 = Inr (ss', v', l')"
    from eq r consider "ss' = ss0" | v1 l1 where "f ss0 ch0 v1 l1 = Some (Inr (ss', v', l'))"
      by (simp split: if_splits sum.splits)
    then show "ss' = ss0"
    proof cases
      case 1
      then show ?thesis .
    next
      case 2
      from IH[OF 2] show ?thesis by simp
    qed
  qed
qed

lemma lcs_while_states: "lcs_while ss ch v l = Some (Inr (ss', v', l')) \<Longrightarrow> ss' = ss"
  using lcs_while_states_aux[of ss ch v l "Inr (ss', v', l')"] by simp

lemma lcs_for_states: "lcs_for ss t v l best = Some (Inr (ss', r)) \<Longrightarrow> ss' = ss"
proof (induction t arbitrary: ss v l best)
  case Nil
  then show ?case by simp
next
  case (Cons ch t)
  from Cons.prems obtain ss1 v1 l1 where w: "lcs_while ss ch v l = Some (Inr (ss1, v1, l1))"
    by (auto split: option.splits sum.splits)
  then have ss1: "ss1 = ss" by (rule lcs_while_states)
  show ?case
  proof (cases "v1 = - 1")
    case True
    with Cons.prems w have "lcs_for ss1 t 0 0 best = Some (Inr (ss', r))" by simp
    then show ?thesis using Cons.IH ss1 by blast
  next
    case False
    with Cons.prems w obtain sv v2 where "py_get ss1 v1 = Inr sv" "nxt sv ch = Some v2"
      and "lcs_for ss1 t v2 (l1 + 1) (if l1 + 1 > best then l1 + 1 else best) = Some (Inr (ss', r))"
      by (auto split: sum.splits option.splits simp: Let_def)
    then show ?thesis using Cons.IH ss1 by blast
  qed
qed

lemma lcs_while_init: "lcs_while [State] ch 0 0 = Some (Inr ([State], - 1, 0))"
  apply (subst lcs_while.simps)
  apply (simp add: py_get_def py_index_def State_def)
  apply (subst lcs_while.simps)
  apply simp
  done

lemma lcs_for_init: "lcs_for [State] t 0 0 0 = Some (Inr ([State], 0))"
  by (induction t) (simp_all add: lcs_while_init)

lemma extend_walk_frame_aux:
  "extend_walk ss ch cur p = Inr (ss', p') \<Longrightarrow>
     length ss' = length ss \<and>
     (\<forall>i. len (ss' ! i) = len (ss ! i) \<and> link (ss' ! i) = link (ss ! i) \<and>
        (\<forall>c. nxt (ss' ! i) c = nxt (ss ! i) c \<or> nxt (ss' ! i) c = Some cur))"
proof (induction ss ch cur p rule: extend_walk.induct)
  case (1 ss ch cur p)
  show ?case
  proof (cases "p = - 1")
    case True
    with "1.prems" show ?thesis by (simp add: extend_walk.simps[of ss])
  next
    case False
    with "1.prems" obtain k where k: "py_index ss p = Inr k"
      by (auto simp: extend_walk.simps[of ss] split: sum.splits)
    then have kl: "k < length ss" by (rule py_index_less)
    show ?thesis
    proof (cases "nxt (ss ! k) ch \<noteq> None")
      case True
      with False k "1.prems" show ?thesis by (simp add: extend_walk.simps[of ss])
    next
      case no: False
      let ?ss1 = "ss[k := (ss ! k)\<lparr>nxt := (nxt (ss ! k))(ch \<mapsto> cur)\<rparr>]"
      from False k no "1.prems" have "extend_walk ?ss1 ch cur (link (ss ! k)) = Inr (ss', p')"
        by (simp add: extend_walk.simps[of ss])
      from "1.IH"[OF False k no this]
      have a: "length ss' = length ?ss1"
        and b: "\<And>i. len (ss' ! i) = len (?ss1 ! i)" "\<And>i. link (ss' ! i) = link (?ss1 ! i)"
        and c: "\<And>i c. nxt (ss' ! i) c = nxt (?ss1 ! i) c \<or> nxt (ss' ! i) c = Some cur"
        by simp_all
      have d: "len (?ss1 ! i) = len (ss ! i)" "link (?ss1 ! i) = link (ss ! i)" for i
        using kl by (cases "i = k"; simp)+
      have e: "nxt (?ss1 ! i) c = nxt (ss ! i) c \<or> nxt (?ss1 ! i) c = Some cur" for i c
        using kl by (cases "i = k"; simp)
      show ?thesis using a b c[of _ _] d e by (metis length_list_update)
    qed
  qed
qed

lemma extend_walk_frame:
  assumes "extend_walk ss ch cur p = Inr (ss', p')"
  shows "length ss' = length ss" "len (ss' ! i) = len (ss ! i)" "link (ss' ! i) = link (ss ! i)"
    "nxt (ss' ! i) c = nxt (ss ! i) c \<or> nxt (ss' ! i) c = Some cur"
  using extend_walk_frame_aux[OF assms] by simp_all

lemma extend_clone_len:
  assumes "extend_clone ss ch cur p q = Some (Inr ss')"
  shows "length ss' = length ss + 1" "i < length ss \<Longrightarrow> len (ss' ! i) = len (ss ! i)"
proof -
  let ?clone = "int (length ss)"
  let ?ss1 = "ss @ [State]"
  from assms obtain sq ss2 sp ss3 sq' ss4 ss5 p' ss6 where
    "py_get ?ss1 q = Inr sq" and
    s2: "set_nxt ?ss1 ?clone (nxt sq) = Inr ss2" and
    "py_get ss2 p = Inr sp" and
    s3: "set_len ss2 ?clone (len sp + 1) = Inr ss3" and
    "py_get ss3 q = Inr sq'" and
    s4: "set_link ss3 ?clone (link sq') = Inr ss4" and
    s5: "extend_redirect ss4 ch q ?clone p = Some (Inr (ss5, p'))" and
    s6: "set_link ss5 q ?clone = Inr ss6" and
    s7: "set_link ss6 cur ?clone = Inr ss'"
    by (auto simp: extend_clone_def Let_def split: sum.splits option.splits prod.splits)
  have l2: "length ss2 = length ss + 1" using set_nxt_frame(1)[OF s2] by simp
  then have "py_index ss2 ?clone = Inr (length ss)" by (simp add: py_index_def Let_def)
  note f3 = set_len_frame[OF s3 this]
  note f2 = set_nxt_frame[OF s2] and f4 = set_link_frame[OF s4]
    and f5 = extend_redirect_frame[OF s5] and f6 = set_link_frame[OF s6]
    and f7 = set_link_frame[OF s7]
  show "length ss' = length ss + 1"
    using l2 f3(1) f4(1) f5(1) f6(1) f7(1) by simp
  assume i: "i < length ss"
  have "len (ss' ! i) = len (?ss1 ! i)"
    using i f2(2)[of i] f3(2)[of i] f4(2)[of i] f5(2)[of i] f6(2)[of i] f7(2)[of i] by simp
  then show "len (ss' ! i) = len (ss ! i)" using i by (simp add: nth_append)
qed

lemma extend_Inr_cases:
  assumes "extend A ch = Some (Inr A')"
  obtains (plain) sl ss2 ss3 p v ss4 where
      "py_get (states A @ [State]) (last_st A) = Inr sl"
      "set_len (states A @ [State]) (int (length (states A))) (len sl + 1) = Inr ss2"
      "extend_walk ss2 ch (int (length (states A))) (last_st A) = Inr (ss3, p)"
      "set_link ss3 (int (length (states A))) v = Inr ss4"
      "A' = \<lparr>states = ss4, last_st = int (length (states A))\<rparr>"
  | (clone) sl ss2 ss3 p q ss4 where
      "py_get (states A @ [State]) (last_st A) = Inr sl"
      "set_len (states A @ [State]) (int (length (states A))) (len sl + 1) = Inr ss2"
      "extend_walk ss2 ch (int (length (states A))) (last_st A) = Inr (ss3, p)"
      "extend_clone ss3 ch (int (length (states A))) p q = Some (Inr ss4)"
      "A' = \<lparr>states = ss4, last_st = int (length (states A))\<rparr>"
  using assms
  by (auto simp: extend_def Let_def split: sum.splits prod.splits option.splits if_splits)

lemma extend_all_snoc:
  "extend_all A (s @ [ch]) =
     (case extend_all A s of None \<Rightarrow> None | Some (Inl e) \<Rightarrow> Some (Inl e)
      | Some (Inr A') \<Rightarrow> extend A' ch)"
proof (induction s arbitrary: A)
  case Nil
  show ?case by (simp split: option.splits sum.splits)
next
  case (Cons c s)
  show ?case by (simp add: Cons.IH split: option.splits sum.splits)
qed

lemma SuffixAutomaton_Nil: "SuffixAutomaton [] = Some (Inr \<lparr>states = [State], last_st = 0\<rparr>)"
  by (simp add: SuffixAutomaton_def)

lemma SuffixAutomaton_extend_all:
  "SuffixAutomaton s = extend_all \<lparr>states = [State], last_st = 0\<rparr> s"
  by (cases s) (simp_all add: SuffixAutomaton_def)

lemma SuffixAutomaton_snoc:
  "SuffixAutomaton (s @ [ch]) =
     (case SuffixAutomaton s of None \<Rightarrow> None | Some (Inl e) \<Rightarrow> Some (Inl e)
      | Some (Inr A) \<Rightarrow> extend A ch)"
  by (simp only: SuffixAutomaton_extend_all extend_all_snoc)

lemmas eval_defs = SuffixAutomaton_def extend_def extend_clone_def py_get_def py_index_def
  set_len_def set_link_def set_nxt_def State_def extend_redirect.simps extend_walk.simps
  longest_common_substring_def lcs_while.simps Let_def


lemma walk_append:
  "walk ss v (x @ y) = (case walk ss v x of None \<Rightarrow> None | Some u \<Rightarrow> walk ss u y)"
  by (induction x arbitrary: v) (simp_all split: option.splits)

lemma walk_snoc:
  "walk ss v (x @ [c]) =
     (case walk ss v x of None \<Rightarrow> None
      | Some u \<Rightarrow> (case nxt (ss ! u) c of None \<Rightarrow> None | Some t \<Rightarrow> Some (nat t)))"
  by (simp add: walk_append split: option.splits)

lemma wf_statesD:
  assumes "wf_states ss"
  shows "ss \<noteq> []" "0 < length ss" "len (ss ! 0) = 0" "link (ss ! 0) = - 1"
    "\<And>i. i < length ss \<Longrightarrow> 0 < i \<Longrightarrow> 0 \<le> link (ss ! i) \<and> link (ss ! i) < int (length ss)"
    "\<And>i c t. i < length ss \<Longrightarrow> nxt (ss ! i) c = Some t \<Longrightarrow> 0 < t \<and> t < int (length ss)"
    "\<And>i c t. i < length ss \<Longrightarrow> nxt (ss ! i) c = Some t \<Longrightarrow> nat t < length ss"
proof -
  show "ss \<noteq> []" "0 < length ss" "len (ss ! 0) = 0" "link (ss ! 0) = - 1"
    using assms unfolding wf_states_def by auto
  show "0 \<le> link (ss ! i) \<and> link (ss ! i) < int (length ss)" if "i < length ss" "0 < i" for i
    using assms that unfolding wf_states_def by blast
  show *: "0 < t \<and> t < int (length ss)" if "i < length ss" "nxt (ss ! i) c = Some t" for i c t
    using assms that unfolding wf_states_def by blast
  show "nat t < length ss" if "i < length ss" "nxt (ss ! i) c = Some t" for i c t
    using *[OF that] by linarith
qed

lemma walk_valid:
  assumes "wf_states ss"
  shows "v < length ss \<Longrightarrow> walk ss v w = Some u \<Longrightarrow> u < length ss"
proof (induction w arbitrary: v)
  case Nil
  then show ?case by simp
next
  case (Cons c w)
  from Cons.prems(2) obtain t where t: "nxt (ss ! v) c = Some t" and w: "walk ss (nat t) w = Some u"
    by (auto split: option.splits)
  from wf_statesD(7)[OF assms Cons.prems(1) t] have "nat t < length ss" .
  from Cons.IH[OF this w] show ?case .
qed

lemma walk_pos:
  assumes "wf_states ss"
  shows "v < length ss \<Longrightarrow> walk ss v w = Some u \<Longrightarrow> w \<noteq> [] \<Longrightarrow> 0 < u"
proof (induction w arbitrary: v rule: rev_induct)
  case Nil
  then show ?case by simp
next
  case (snoc c w)
  from snoc.prems(2) obtain v' t where v': "walk ss v w = Some v'" and t: "nxt (ss ! v') c = Some t"
    and u: "u = nat t"
    by (auto simp: walk_snoc split: option.splits)
  have "v' < length ss" using walk_valid[OF assms snoc.prems(1) v'] .
  from wf_statesD(6)[OF assms this t] u show ?case by simp
qed

lemma sam_invD:
  assumes "sam_inv s ss lst rep"
  shows "wf_states ss" "0 \<le> lst" "lst < int (length ss)" "nat lst < length ss"
    "\<And>w. sublist w s \<Longrightarrow> walk ss 0 w \<noteq> None"
    "\<And>v. v < length ss \<Longrightarrow> sublist (rep v) s"
    "\<And>v. v < length ss \<Longrightarrow> len (ss ! v) = int (length (rep v))"
    "\<And>v w. v < length ss \<Longrightarrow> walk ss 0 w = Some v \<longleftrightarrow> suffix w (rep v) \<and> llen ss v < int (length w)"
    "\<And>v. v < length ss \<Longrightarrow> 0 < v \<Longrightarrow> suffix (rep (nat (link (ss ! v)))) (rep v)"
    "\<And>v. v < length ss \<Longrightarrow> 0 < v \<Longrightarrow> len (ss ! nat (link (ss ! v))) < len (ss ! v)"
    "rep (nat lst) = s"
  using assms unfolding sam_inv_def by auto

lemma sam_link_valid:
  assumes "sam_inv s ss lst rep" "v < length ss" "0 < v"
  shows "0 \<le> link (ss ! v)" "nat (link (ss ! v)) < length ss" "link (ss ! v) \<noteq> - 1"
    "llen ss v = len (ss ! nat (link (ss ! v)))"
  using wf_statesD(5)[OF sam_invD(1)[OF assms(1)] assms(2,3)] by (auto simp: llen_def)

lemma sam_rep0:
  assumes "sam_inv s ss lst rep"
  shows "rep 0 = []" "llen ss 0 = - 1"
proof -
  note wf = sam_invD(1)[OF assms]
  have "len (ss ! 0) = int (length (rep 0))" using sam_invD(7)[OF assms wf_statesD(2)[OF wf]] .
  then show "rep 0 = []" using wf_statesD(3)[OF wf] by simp
  show "llen ss 0 = - 1" using wf_statesD(4)[OF wf] by (simp add: llen_def)
qed

lemma sam_llen_less:
  assumes "sam_inv s ss lst rep" "v < length ss"
  shows "llen ss v < len (ss ! v)"
proof (cases "v = 0")
  case True
  then show ?thesis using sam_rep0[OF assms(1)] sam_invD(7)[OF assms] by simp
next
  case False
  then have "0 < v" by simp
  from sam_link_valid(4)[OF assms this] sam_invD(10)[OF assms this] show ?thesis by simp
qed

lemma sam_walk_rep:
  assumes "sam_inv s ss lst rep" "v < length ss"
  shows "walk ss 0 (rep v) = Some v"
  using sam_invD(8)[OF assms, of "rep v"] sam_llen_less[OF assms] sam_invD(7)[OF assms] by simp

lemma sam_walk_valid:
  assumes "sam_inv s ss lst rep" "walk ss 0 w = Some v"
  shows "v < length ss"
  using walk_valid[OF sam_invD(1)[OF assms(1)] wf_statesD(2)[OF sam_invD(1)[OF assms(1)]] assms(2)] .

lemma sam_walk_suffix:
  assumes "sam_inv s ss lst rep" "walk ss 0 w = Some v"
  shows "suffix w (rep v)" "llen ss v < int (length w)" "int (length w) \<le> len (ss ! v)"
proof -
  have v: "v < length ss" using sam_walk_valid[OF assms] .
  from sam_invD(8)[OF assms(1) v, of w] assms(2)
  show "suffix w (rep v)" "llen ss v < int (length w)" by simp_all
  then show "int (length w) \<le> len (ss ! v)"
    using sam_invD(7)[OF assms(1) v] suffix_length_le by fastforce
qed

lemma sam_walk_sublist:
  assumes "sam_inv s ss lst rep"
  shows "walk ss 0 w \<noteq> None \<longleftrightarrow> sublist w s"
proof
  assume "walk ss 0 w \<noteq> None"
  then obtain v where w: "walk ss 0 w = Some v" by auto
  have v: "v < length ss" using sam_walk_valid[OF assms w] .
  have "sublist w (rep v)" using sam_walk_suffix(1)[OF assms w] by (rule suffix_imp_sublist)
  then show "sublist w s" using sam_invD(6)[OF assms v] sublist_order.order.trans by blast
next
  assume "sublist w s"
  then show "walk ss 0 w \<noteq> None" by (rule sam_invD(5)[OF assms])
qed

lemma sam_rep_inj:
  assumes "sam_inv s ss lst rep" "v < length ss" "u < length ss" "rep v = rep u"
  shows "v = u"
proof -
  have "walk ss 0 (rep u) = Some v" using sam_walk_rep[OF assms(1,2)] by (simp only: assms(4))
  then show ?thesis using sam_walk_rep[OF assms(1,3)] by simp
qed

lemma sam_edge:
  assumes "sam_inv s ss lst rep" "v < length ss" "nxt (ss ! v) c = Some t"
  shows "0 < t" "nat t < length ss" "walk ss 0 (rep v @ [c]) = Some (nat t)"
    "suffix (rep v @ [c]) (rep (nat t))" "len (ss ! v) < len (ss ! nat t)"
    "sublist (rep v @ [c]) s"
proof -
  from wf_statesD(6,7)[OF sam_invD(1)[OF assms(1)] assms(2,3)]
  show "0 < t" "nat t < length ss" by simp_all
  show w: "walk ss 0 (rep v @ [c]) = Some (nat t)"
    using sam_walk_rep[OF assms(1,2)] assms(3) by (simp add: walk_snoc)
  from sam_walk_suffix[OF assms(1) w]
  show "suffix (rep v @ [c]) (rep (nat t))" "len (ss ! v) < len (ss ! nat t)"
    using sam_invD(7)[OF assms(1,2)] by simp_all
  show "sublist (rep v @ [c]) s" using sam_walk_sublist[OF assms(1), of "rep v @ [c]"] w by simp
qed

lemma sam_snoc_sublist:
  assumes "sam_inv s ss lst rep" "walk ss 0 w = Some v"
  shows "sublist (w @ [c]) s \<longleftrightarrow> nxt (ss ! v) c \<noteq> None"
  using sam_walk_sublist[OF assms(1), of "w @ [c]"] assms(2)
  by (auto simp: walk_snoc split: option.splits)

lemma sam_last_no_edge:
  assumes "sam_inv s ss lst rep"
  shows "nxt (ss ! nat lst) c = None"
proof (rule ccontr)
  assume "nxt (ss ! nat lst) c \<noteq> None"
  then obtain t where "nxt (ss ! nat lst) c = Some t" by auto
  from sam_edge(6)[OF assms sam_invD(4)[OF assms] this] have "sublist (s @ [c]) s"
    using sam_invD(11)[OF assms] by simp
  then show False using sublist_length_le by fastforce
qed

text \<open>The states of the suffixes of \<open>s\<close>.\<close>

lemma sam_suffix_state_aux:
  assumes inv: "sam_inv s ss lst rep"
  shows "v < length ss \<Longrightarrow> suffix (rep v) s \<Longrightarrow> suffix x (rep v) \<Longrightarrow>
    \<exists>u<length ss. walk ss 0 x = Some u \<and> suffix (rep u) s"
proof (induction "length (rep v)" arbitrary: v rule: less_induct)
  case less
  show ?case
  proof (cases "llen ss v < int (length x)")
    case True
    then have "walk ss 0 x = Some v" using sam_invD(8)[OF inv less.prems(1), of x] less.prems(3) by simp
    then show ?thesis using less.prems by blast
  next
    case False
    then have v0: "0 < v" using sam_rep0(2)[OF inv] by (cases "v = 0") auto
    let ?u = "nat (link (ss ! v))"
    note lv = sam_link_valid[OF inv less.prems(1) v0]
    have su: "suffix (rep ?u) (rep v)" using sam_invD(9)[OF inv less.prems(1) v0] .
    have lu: "len (ss ! ?u) = int (length (rep ?u))" using sam_invD(7)[OF inv lv(2)] .
    have "length (rep ?u) < length (rep v)"
      using sam_invD(10)[OF inv less.prems(1) v0] lu sam_invD(7)[OF inv less.prems(1)] by simp
    moreover have "suffix (rep ?u) s" using su less.prems(2) suffix_order.trans by blast
    moreover have "suffix x (rep ?u)"
      using False lv(4) lu by (intro suffix_length_suffix[OF less.prems(3) su]) simp
    ultimately show ?thesis using less.hyps[OF _ lv(2)] by blast
  qed
qed

lemma sam_suffix_state:
  assumes inv: "sam_inv s ss lst rep" and x: "suffix x s"
  obtains u where "u < length ss" "walk ss 0 x = Some u" "suffix (rep u) s"
  using sam_suffix_state_aux[OF inv sam_invD(4)[OF inv], of x] x sam_invD(11)[OF inv] by auto

lemma sam_suffix_unique:
  assumes inv: "sam_inv s ss lst rep" and v: "v < length ss" and i: "i < length ss"
    and sv: "suffix (rep v) s" and si: "suffix (rep i) s"
    and l: "llen ss v < len (ss ! i)" "len (ss ! i) \<le> len (ss ! v)"
  shows "i = v"
proof -
  have "suffix (rep i) (rep v)"
    using l(2) sam_invD(7)[OF inv v] sam_invD(7)[OF inv i] by (intro suffix_length_suffix[OF si sv]) simp
  then have "walk ss 0 (rep i) = Some v"
    using sam_invD(8)[OF inv v, of "rep i"] l(1) sam_invD(7)[OF inv i] by simp
  then show ?thesis using sam_walk_rep[OF inv i] by simp
qed

lemma length_mark [simp]: "length (mark s rep ch cur K ss) = length ss"
  by (simp add: mark_def)

lemma nth_mark:
  "i < length ss \<Longrightarrow> mark s rep ch cur K ss ! i =
     (if suffix (rep i) s \<and> K < len (ss ! i)
      then (ss ! i)\<lparr>nxt := (nxt (ss ! i))(ch \<mapsto> cur)\<rparr> else ss ! i)"
  by (simp add: mark_def)

lemma mark_id:
  assumes "\<And>i. i < length ss \<Longrightarrow> suffix (rep i) s \<Longrightarrow> len (ss ! i) \<le> K"
  shows "mark s rep ch cur K ss = ss"
proof (rule nth_equalityI)
  show "length (mark s rep ch cur K ss) = length ss" by simp
next
  fix i assume "i < length (mark s rep ch cur K ss)"
  then have i: "i < length ss" by simp
  show "mark s rep ch cur K ss ! i = ss ! i"
  proof (cases "suffix (rep i) s")
    case True
    from assms[OF i True] show ?thesis using i by (simp add: nth_mark)
  next
    case False
    then show ?thesis using i by (simp add: nth_mark)
  qed
qed

lemma sam_len_nonneg:
  assumes "sam_inv s ss lst rep" "v < length ss"
  shows "0 \<le> len (ss ! v)" "- 1 \<le> llen ss v"
proof -
  show "0 \<le> len (ss ! v)" using sam_invD(7)[OF assms] by simp
  show "- 1 \<le> llen ss v"
  proof (cases "v = 0")
    case True
    then show ?thesis using sam_rep0(2)[OF assms(1)] by simp
  next
    case False
    then have v: "0 < v" by simp
    show ?thesis using sam_link_valid(2,4)[OF assms v] sam_invD(7)[OF assms(1), of "nat (link (ss ! v))"]
      by simp
  qed
qed

lemma sam_link_step:
  assumes inv: "sam_inv s ss lst rep" and v: "v < length ss" and sv: "suffix (rep v) s"
  shows "lenp ss (link (ss ! v)) = llen ss v"
    "link (ss ! v) = - 1 \<or> (0 \<le> link (ss ! v) \<and> nat (link (ss ! v)) < length ss \<and>
       suffix (rep (nat (link (ss ! v)))) s)"
proof -
  show "lenp ss (link (ss ! v)) = llen ss v" by (simp add: lenp_def llen_def)
  show "link (ss ! v) = - 1 \<or> (0 \<le> link (ss ! v) \<and> nat (link (ss ! v)) < length ss \<and>
       suffix (rep (nat (link (ss ! v)))) s)"
  proof (cases "v = 0")
    case True
    then show ?thesis using wf_statesD(4)[OF sam_invD(1)[OF inv]] by simp
  next
    case False
    then have v0: "0 < v" by simp
    have "suffix (rep (nat (link (ss ! v)))) s"
      using sam_invD(9)[OF inv v v0] sv suffix_order.trans by blast
    then show ?thesis using sam_link_valid(1,2)[OF inv v v0] by simp
  qed
qed

lemma mark_step:
  assumes inv: "sam_inv s ss lst rep" and k: "k < length ss" and sk: "suffix (rep k) s"
  shows "(mark s rep ch cur (len (ss ! k)) ss @ [X])
            [k := ((mark s rep ch cur (len (ss ! k)) ss @ [X]) ! k)
                    \<lparr>nxt := (nxt ((mark s rep ch cur (len (ss ! k)) ss @ [X]) ! k))(ch \<mapsto> cur)\<rparr>]
         = mark s rep ch cur (llen ss k) ss @ [X]"
    (is "?L = ?R")
proof (rule nth_equalityI)
  show "length ?L = length ?R" by simp
next
  fix i assume "i < length ?L"
  then have i: "i < length ss + 1" by simp
  show "?L ! i = ?R ! i"
  proof (cases "i = length ss")
    case True
    then show ?thesis using k by (simp add: nth_append)
  next
    case False
    with i have il: "i < length ss" by simp
    show ?thesis
    proof (cases "i = k")
      case True
      then show ?thesis using k sk sam_llen_less[OF inv k] by (simp add: nth_append nth_mark)
    next
      case ik: False
      have "\<not> (suffix (rep i) s \<and> llen ss k < len (ss ! i) \<and> len (ss ! i) \<le> len (ss ! k))"
        using sam_suffix_unique[OF inv k il sk] ik by blast
      moreover have "llen ss k < len (ss ! k)" using sam_llen_less[OF inv k] .
      ultimately show ?thesis using il ik k by (auto simp: nth_append nth_mark)
    qed
  qed
qed

lemma extend_walk_mark:
  assumes inv: "sam_inv s ss lst rep"
  shows "p = - 1 \<or> (0 \<le> p \<and> nat p < length ss \<and> suffix (rep (nat p)) s) \<Longrightarrow>
    (\<forall>i<length ss. suffix (rep i) s \<and> lenp ss p < len (ss ! i) \<longrightarrow> nxt (ss ! i) ch = None) \<Longrightarrow>
    \<exists>p'. extend_walk (mark s rep ch cur (lenp ss p) ss @ [X]) ch cur p
             = Inr (mark s rep ch cur (lenp ss p') ss @ [X], p')
      \<and> (p' = - 1 \<or> (0 \<le> p' \<and> nat p' < length ss \<and> suffix (rep (nat p')) s \<and>
             nxt (ss ! nat p') ch \<noteq> None))
      \<and> (\<forall>i<length ss. suffix (rep i) s \<and> lenp ss p' < len (ss ! i) \<longrightarrow> nxt (ss ! i) ch = None)"
proof (induction "nat (lenp ss p + 1)" arbitrary: p rule: less_induct)
  case less
  show ?case
  proof (cases "p = - 1")
    case True
    have "extend_walk (mark s rep ch cur (lenp ss p) ss @ [X]) ch cur p
             = Inr (mark s rep ch cur (lenp ss p) ss @ [X], p)"
      using True by (simp add: extend_walk.simps[of _ _ _ "- 1"])
    then show ?thesis using True less.prems(2) by blast
  next
    case False
    with less.prems(1) have p: "0 \<le> p" "nat p < length ss" "suffix (rep (nat p)) s" by simp_all
    let ?k = "nat p"
    let ?M = "mark s rep ch cur (lenp ss p) ss @ [X]"
    have K: "lenp ss p = len (ss ! ?k)" using False by (simp add: lenp_def)
    have ix: "py_index ?M p = Inr ?k" using p by (simp add: py_index_def Let_def)
    have Mk: "?M ! ?k = ss ! ?k" using p K by (simp add: nth_append nth_mark)
    show ?thesis
    proof (cases "nxt (ss ! ?k) ch = None")
      case edge: False
      have "extend_walk ?M ch cur p = Inr (?M, p)"
        using False ix Mk edge by (simp add: extend_walk.simps[of ?M])
      then show ?thesis using p edge less.prems(2) by blast
    next
      case True
      let ?p1 = "link (ss ! ?k)"
      have step: "extend_walk ?M ch cur p
        = extend_walk (?M[?k := (?M ! ?k)\<lparr>nxt := (nxt (?M ! ?k))(ch \<mapsto> cur)\<rparr>]) ch cur (link (?M ! ?k))"
        using False ix Mk True by (simp add: extend_walk.simps[of ?M])
      have M1: "?M[?k := (?M ! ?k)\<lparr>nxt := (nxt (?M ! ?k))(ch \<mapsto> cur)\<rparr>]
          = mark s rep ch cur (lenp ss ?p1) ss @ [X]"
        using mark_step[OF inv p(2,3), of ch cur X] K sam_link_step(1)[OF inv p(2,3)] by simp
      have less1: "nat (lenp ss ?p1 + 1) < nat (lenp ss p + 1)"
        using sam_link_step(1)[OF inv p(2,3)] K sam_llen_less[OF inv p(2)] sam_len_nonneg[OF inv p(2)]
        by simp
      have none1: "\<forall>i<length ss. suffix (rep i) s \<and> lenp ss ?p1 < len (ss ! i) \<longrightarrow> nxt (ss ! i) ch = None"
      proof (intro allI impI)
        fix i assume i: "i < length ss" and a: "suffix (rep i) s \<and> lenp ss ?p1 < len (ss ! i)"
        show "nxt (ss ! i) ch = None"
        proof (cases "lenp ss p < len (ss ! i)")
          case True
          then show ?thesis using less.prems(2) i a by blast
        next
          case False
          then have "i = ?k"
            using sam_suffix_unique[OF inv p(2) i p(3)] a K sam_link_step(1)[OF inv p(2,3)] by simp
          then show ?thesis using True by simp
        qed
      qed
      from less.hyps[OF less1 sam_link_step(2)[OF inv p(2,3)] none1]
      show ?thesis unfolding step Mk M1[unfolded Mk] .
    qed
  qed
qed

lemma sam_new_suffix:
  assumes inv: "sam_inv s ss lst rep"
    and p: "p = - 1 \<or> (0 \<le> p \<and> nat p < length ss \<and> suffix (rep (nat p)) s \<and>
             nxt (ss ! nat p) ch \<noteq> None)"
    and none: "\<forall>i<length ss. suffix (rep i) s \<and> lenp ss p < len (ss ! i) \<longrightarrow> nxt (ss ! i) ch = None"
    and x: "suffix x s"
  shows "sublist (x @ [ch]) s \<longleftrightarrow> int (length x) \<le> lenp ss p"
proof
  assume sub: "sublist (x @ [ch]) s"
  from sam_suffix_state[OF inv x] obtain u where u: "u < length ss" "walk ss 0 x = Some u" "suffix (rep u) s"
    by blast
  have "nxt (ss ! u) ch \<noteq> None" using sam_snoc_sublist[OF inv u(2)] sub by simp
  then have "len (ss ! u) \<le> lenp ss p" using none u(1,3) by force
  then show "int (length x) \<le> lenp ss p" using sam_walk_suffix(3)[OF inv u(2)] by simp
next
  assume le: "int (length x) \<le> lenp ss p"
  then have "p \<noteq> - 1" by (auto simp: lenp_def)
  with p have p': "nat p < length ss" "suffix (rep (nat p)) s" "nxt (ss ! nat p) ch \<noteq> None" by simp_all
  from p'(3) obtain t where "nxt (ss ! nat p) ch = Some t" by auto
  from sam_edge(6)[OF inv p'(1) this] have sub: "sublist (rep (nat p) @ [ch]) s" .
  have "suffix x (rep (nat p))"
    using le \<open>p \<noteq> - 1\<close> sam_invD(7)[OF inv p'(1)]
    by (intro suffix_length_suffix[OF x p'(2)]) (simp add: lenp_def)
  then have "suffix (x @ [ch]) (rep (nat p) @ [ch])" by simp
  then have "sublist (x @ [ch]) (rep (nat p) @ [ch])" by (rule suffix_imp_sublist)
  then show "sublist (x @ [ch]) s" using sub sublist_order.order.trans by blast
qed

lemma sublist_snoc_left: "sublist (w @ [a]) s \<Longrightarrow> sublist w s"
  using sublist_order.order.trans[of w "w @ [a]" s] by simp

lemma suffix_snoc_snoc: "suffix (w @ [a]) (s @ [c]) \<longleftrightarrow> a = c \<and> suffix w s"
  by simp

text \<open>The states that receive a transition in the first loop had none on that symbol.\<close>

lemma sam_marked_no_edge:
  assumes inv: "sam_inv s ss lst rep"
    and F: "\<And>x. suffix x s \<Longrightarrow> sublist (x @ [ch]) s \<longleftrightarrow> int (length x) \<le> K"
    and i: "i < length ss" "suffix (rep i) s" "K < len (ss ! i)"
  shows "nxt (ss ! i) ch = None"
proof -
  have "\<not> sublist (rep i @ [ch]) s" using F[OF i(2)] i(3) sam_invD(7)[OF inv i(1)] by simp
  then show ?thesis using sam_snoc_sublist[OF inv sam_walk_rep[OF inv i(1)], of ch] by simp
qed

lemma sam_K_bounds:
  assumes inv: "sam_inv s ss lst rep"
    and F: "\<And>x. suffix x s \<Longrightarrow> sublist (x @ [ch]) s \<longleftrightarrow> int (length x) \<le> K"
  shows "K < int (length s)" "K < len (ss ! nat lst)"
proof -
  have "\<not> sublist (s @ [ch]) s" using sublist_length_le by fastforce
  then show "K < int (length s)" using F[of s] by simp
  then show "K < len (ss ! nat lst)"
    using sam_invD(7)[OF inv sam_invD(4)[OF inv]] sam_invD(11)[OF inv] by simp
qed

text \<open>
  The walks of the automaton after a call of \<open>extend\<close> that makes no clone: the substrings
  of \<open>s\<close> lead where they led, the other suffixes of \<open>s @ [ch]\<close> lead to the new state.
\<close>

lemma plain_walk:
  assumes inv: "sam_inv s ss lst rep"
    and F: "\<And>x. suffix x s \<Longrightarrow> sublist (x @ [ch]) s \<longleftrightarrow> int (length x) \<le> K"
    and X: "nxt X = Map.empty"
  defines "ss' \<equiv> mark s rep ch (int (length ss)) K ss @ [X]"
  shows "walk ss' 0 w = (if sublist w s then walk ss 0 w
                         else if suffix w (s @ [ch]) then Some (length ss) else None)"
proof (induction w rule: rev_induct)
  case Nil
  show ?case by simp
next
  case (snoc a w)
  let ?n = "length ss"
  have nth': "nxt (ss' ! v) c = (if suffix (rep v) s \<and> K < len (ss ! v) \<and> c = ch then Some (int ?n)
       else nxt (ss ! v) c)" if "v < ?n" for v c
    using that by (simp add: ss'_def nth_append nth_mark)
  have nthn: "nxt (ss' ! ?n) c = None" for c
    by (simp add: ss'_def nth_append X)
  show ?case
  proof (cases "sublist w s")
    case True
    then obtain v where v: "walk ss 0 w = Some v" using sam_invD(5)[OF inv] by blast
    have vn: "v < ?n" using sam_walk_valid[OF inv v] .
    have w': "walk ss' 0 w = Some v" using snoc.IH True v by simp
    show ?thesis
    proof (cases "sublist (w @ [a]) s")
      case sub: True
      then obtain t where t: "nxt (ss ! v) a = Some t" using sam_snoc_sublist[OF inv v, of a] by auto
      have "(suffix (rep v) s \<and> K < len (ss ! v) \<and> a = ch) = False"
        using sam_marked_no_edge[OF inv F vn] t by auto
      then have "nxt (ss' ! v) a = Some t" by (simp only: nth'[OF vn] if_False t)
      then show ?thesis using sub w' v t by (simp add: walk_snoc)
    next
      case nsub: False
      then have none: "nxt (ss ! v) a = None" using sam_snoc_sublist[OF inv v, of a] by simp
      show ?thesis
      proof (cases "suffix (w @ [a]) (s @ [ch])")
        case True
        then have a: "a = ch" and ws: "suffix w s" by simp_all
        from sam_suffix_state[OF inv ws] v have sv: "suffix (rep v) s" by auto
        have "K < int (length w)" using F[OF ws] nsub a by simp
        then have "K < len (ss ! v)" using sam_walk_suffix(3)[OF inv v] by simp
        then have "nxt (ss' ! v) a = Some (int ?n)" using nth'[OF vn, of a] sv a by simp
        then show ?thesis using nsub True w' by (simp add: walk_snoc)
      next
        case False
        have "\<not> (suffix (rep v) s \<and> a = ch)"
        proof
          assume h: "suffix (rep v) s \<and> a = ch"
          have "suffix w (rep v)" using sam_walk_suffix(1)[OF inv v] .
          then have "suffix w s" using h suffix_order.trans by blast
          then show False using False h by simp
        qed
        then have "(suffix (rep v) s \<and> K < len (ss ! v) \<and> a = ch) = False" by blast
        then have "nxt (ss' ! v) a = None" by (simp only: nth'[OF vn] if_False none)
        then show ?thesis using nsub False w' by (simp add: walk_snoc)
      qed
    qed
  next
    case False
    have nsub: "\<not> sublist (w @ [a]) s"
    proof
      assume "sublist (w @ [a]) s"
      from sublist_snoc_left[OF this] show False using False by simp
    qed
    have nsuf: "\<not> suffix (w @ [a]) (s @ [ch])"
    proof
      assume "suffix (w @ [a]) (s @ [ch])"
      then have "suffix w s" by simp
      then show False using False by (simp add: suffix_imp_sublist)
    qed
    show ?thesis
    proof (cases "suffix w (s @ [ch])")
      case True
      then have "walk ss' 0 w = Some ?n" using snoc.IH False by simp
      then show ?thesis using nsub nsuf nthn by (simp add: walk_snoc)
    next
      case nsw: False
      then have "walk ss' 0 w = None" using snoc.IH False by simp
      then show ?thesis using nsub nsuf by (simp add: walk_snoc)
    qed
  qed
qed

lemma sam_inv_plain:
  assumes inv: "sam_inv s ss lst rep"
    and F: "\<And>x. suffix x s \<Longrightarrow> sublist (x @ [ch]) s \<longleftrightarrow> int (length x) \<le> K"
    and L: "L < length ss" "len (ss ! L) = K + 1" "suffix (rep L) (s @ [ch])"
  shows "sam_inv (s @ [ch])
           (mark s rep ch (int (length ss)) K ss
              @ [\<lparr>nxt = Map.empty, link = int L, len = len (ss ! nat lst) + 1\<rparr>])
           (int (length ss)) (rep(length ss := s @ [ch]))"
proof -
  let ?n = "length ss"
  let ?X = "\<lparr>nxt = Map.empty, link = int L, len = len (ss ! nat lst) + 1\<rparr> :: 'a state"
  let ?ss' = "mark s rep ch (int ?n) K ss @ [?X]"
  let ?s' = "s @ [ch]"
  let ?rep' = "rep(?n := ?s')"
  note wf = sam_invD(1)[OF inv]
  have n0: "0 < ?n" using wf_statesD(2)[OF wf] .
  have len': "len (?ss' ! v) = len (ss ! v)" and link': "link (?ss' ! v) = link (ss ! v)"
    and nxt': "nxt (?ss' ! v) c = (if suffix (rep v) s \<and> K < len (ss ! v) \<and> c = ch then Some (int ?n)
       else nxt (ss ! v) c)" if "v < ?n" for v c
    using that by (simp_all add: nth_append nth_mark)
  have Xn: "?ss' ! ?n = ?X" by (simp add: nth_append)
  have walk': "walk ?ss' 0 w = (if sublist w s then walk ss 0 w
                         else if suffix w ?s' then Some ?n else None)" for w
    by (rule plain_walk[OF inv F]) simp_all
  have llen': "llen ?ss' v = llen ss v" if v: "v < ?n" for v
  proof (cases "v = 0")
    case True
    then show ?thesis using wf_statesD(4)[OF wf] link'[OF n0] by (simp add: llen_def)
  next
    case False
    then have "0 < v" by simp
    note lv = sam_link_valid[OF inv v this]
    show ?thesis using lv(2,3) link'[OF v] len'[OF lv(2)] by (simp add: llen_def)
  qed
  have llenn: "llen ?ss' ?n = K + 1"
    using L(1,2) len'[OF L(1)] by (simp add: llen_def nth_append)
  have Kl: "K < len (ss ! nat lst)" using sam_K_bounds(2)[OF inv F] .
  have lens: "len (ss ! nat lst) = int (length s)"
    using sam_invD(7)[OF inv sam_invD(4)[OF inv]] sam_invD(11)[OF inv] by simp
  have K1: "- 1 \<le> K" using L(2) sam_len_nonneg(1)[OF inv L(1)] by simp
  have wf': "wf_states ?ss'"
    unfolding wf_states_def
  proof (intro conjI allI impI)
    show "?ss' \<noteq> []" by simp
    show "len (?ss' ! 0) = 0" using len'[OF n0] wf_statesD(3)[OF wf] by simp
    show "link (?ss' ! 0) = - 1" using link'[OF n0] wf_statesD(4)[OF wf] by simp
  next
    fix i assume i: "i < length ?ss'" "0 < i"
    show "0 \<le> link (?ss' ! i)" "link (?ss' ! i) < int (length ?ss')"
    proof -
      have "0 \<le> link (?ss' ! i) \<and> link (?ss' ! i) < int (length ?ss')"
      proof (cases "i = ?n")
        case True
        then show ?thesis using L(1) by (simp add: nth_append)
      next
        case False
        with i have il: "i < ?n" by simp
        from wf_statesD(5)[OF wf il i(2)] link'[OF il] show ?thesis by simp
      qed
      then show "0 \<le> link (?ss' ! i)" "link (?ss' ! i) < int (length ?ss')" by simp_all
    qed
  next
    fix i c t assume i: "i < length ?ss'" and t: "nxt (?ss' ! i) c = Some t"
    show "0 < t" "t < int (length ?ss')"
    proof -
      have "0 < t \<and> t < int (length ?ss')"
      proof (cases "i = ?n")
        case True
        then show ?thesis using t by (simp add: nth_append)
      next
        case False
        with i have il: "i < ?n" by simp
        show ?thesis
        proof (cases "suffix (rep i) s \<and> K < len (ss ! i) \<and> c = ch")
          case True
          then have "t = int ?n" using t nxt'[OF il, of c] by simp
          then show ?thesis using n0 by simp
        next
          case False
          then have "nxt (ss ! i) c = Some t" using t nxt'[OF il, of c] by (simp split: if_splits)
          from wf_statesD(6)[OF wf il this] show ?thesis by simp
        qed
      qed
      then show "0 < t" "t < int (length ?ss')" by simp_all
    qed
  qed
  show ?thesis
    unfolding sam_inv_def
  proof (intro conjI allI impI)
    show "wf_states ?ss'" by (rule wf')
    show "0 \<le> int ?n" by simp
    show "int ?n < int (length ?ss')" by simp
  next
    fix w assume "sublist w ?s'"
    then have "suffix w ?s' \<or> sublist w s" by (simp only: sublist_snoc)
    then show "walk ?ss' 0 w \<noteq> None"
      using sam_invD(5)[OF inv, of w] by (auto simp: walk')
  next
    fix v assume v: "v < length ?ss'"
    show "sublist (?rep' v) ?s'"
    proof (cases "v = ?n")
      case True
      then show ?thesis by simp
    next
      case False
      with v have "v < ?n" by simp
      from sam_invD(6)[OF inv this] have "sublist (rep v) ?s'" by (simp add: sublist_snoc)
      then show ?thesis using False by simp
    qed
    show "len (?ss' ! v) = int (length (?rep' v))"
    proof (cases "v = ?n")
      case True
      then show ?thesis using lens by (simp add: nth_append)
    next
      case False
      with v have vl: "v < ?n" by simp
      show ?thesis using len'[OF vl] sam_invD(7)[OF inv vl] False by simp
    qed
  next
    fix v w assume v: "v < length ?ss'"
    show "walk ?ss' 0 w = Some v \<longleftrightarrow> suffix w (?rep' v) \<and> llen ?ss' v < int (length w)"
    proof (cases "v = ?n")
      case True
      have a: "walk ?ss' 0 w = Some ?n \<longleftrightarrow> \<not> sublist w s \<and> suffix w ?s'"
      proof (cases "sublist w s")
        case sub: True
        then obtain u where u: "walk ss 0 w = Some u" using sam_invD(5)[OF inv] by blast
        have "u < ?n" using sam_walk_valid[OF inv u] .
        then show ?thesis using sub u by (simp add: walk')
      next
        case False
        then show ?thesis by (simp add: walk')
      qed
      have b: "\<not> sublist w s \<longleftrightarrow> K + 1 < int (length w)" if sw: "suffix w ?s'"
      proof (cases w rule: rev_cases)
        case Nil
        then show ?thesis using K1 by simp
      next
        case (snoc x c)
        with sw have c: "c = ch" and xs: "suffix x s" by simp_all
        show ?thesis using F[OF xs] snoc c by auto
      qed
      show ?thesis using True a b llenn by auto
    next
      case False
      with v have vl: "v < ?n" by simp
      have "walk ?ss' 0 w = Some v \<longleftrightarrow> walk ss 0 w = Some v"
      proof (cases "sublist w s")
        case True
        then show ?thesis by (simp add: walk')
      next
        case nsub: False
        then have "walk ss 0 w = None" using sam_walk_sublist[OF inv, of w] by simp
        then show ?thesis using nsub False by (simp add: walk')
      qed
      then show ?thesis using sam_invD(8)[OF inv vl, of w] llen'[OF vl] False by simp
    qed
  next
    fix v assume v: "v < length ?ss'" "0 < v"
    have "suffix (?rep' (nat (link (?ss' ! v)))) (?rep' v)
      \<and> len (?ss' ! nat (link (?ss' ! v))) < len (?ss' ! v)"
    proof (cases "v = ?n")
      case True
      then show ?thesis using L Kl len'[OF L(1)] by (simp add: nth_append)
    next
      case False
      with v have vl: "v < ?n" by simp
      note lv = sam_link_valid[OF inv vl v(2)]
      show ?thesis
        using sam_invD(9,10)[OF inv vl v(2)] lv(2) link'[OF vl] len'[OF vl] len'[OF lv(2)] False
        by simp
    qed
    then show "suffix (?rep' (nat (link (?ss' ! v)))) (?rep' v)"
      "len (?ss' ! nat (link (?ss' ! v))) < len (?ss' ! v)" by simp_all
  next
    show "?rep' (nat (int ?n)) = ?s'" by simp
  qed
qed

lemma length_mark2 [simp]: "length (mark2 s rep ch cur clone J K ss) = length ss"
  by (simp add: mark2_def)

lemma nth_mark2:
  "i < length ss \<Longrightarrow> mark2 s rep ch cur clone J K ss ! i =
     (if suffix (rep i) s \<and> K < len (ss ! i)
      then (ss ! i)\<lparr>nxt := (nxt (ss ! i))(ch \<mapsto> cur)\<rparr>
      else if suffix (rep i) s \<and> J < len (ss ! i)
      then (ss ! i)\<lparr>nxt := (nxt (ss ! i))(ch \<mapsto> clone)\<rparr>
      else ss ! i)"
  by (simp add: mark2_def)

lemma mark2_same: "mark2 s rep ch cur clone K K ss = mark s rep ch cur K ss"
  by (simp add: mark2_def mark_def)

text \<open>
  The situation in which \<open>extend\<close> makes a clone: \<open>p\<close> is the state of the longest suffix
  of \<open>s\<close> that is followed by \<open>ch\<close> somewhere in \<open>s\<close>, and its transition on \<open>ch\<close> leads to
  a state \<open>q\<close> whose length is not that of \<open>p\<close> plus one.
\<close>

lemma split_facts:
  assumes inv: "sam_inv s ss lst rep"
    and p: "p < length ss" "suffix (rep p) s" "len (ss ! p) = K"
    and q: "nxt (ss ! p) ch = Some qi" "len (ss ! nat qi) \<noteq> K + 1"
  shows "nat qi < length ss" "0 < nat qi" "int (nat qi) = qi"
    "walk ss 0 (rep p @ [ch]) = Some (nat qi)"
    "suffix (rep p @ [ch]) (rep (nat qi))"
    "K + 1 < len (ss ! nat qi)" "llen ss (nat qi) < K + 1"
    "int (length (rep p @ [ch])) = K + 1"
proof -
  note e = sam_edge[OF inv p(1) q(1)]
  show "nat qi < length ss" "0 < nat qi" "int (nat qi) = qi" using e(1,2) by simp_all
  show "walk ss 0 (rep p @ [ch]) = Some (nat qi)" using e(3) .
  show "suffix (rep p @ [ch]) (rep (nat qi))" using e(4) .
  show "K + 1 < len (ss ! nat qi)" using e(5) p(3) q(2) by simp
  show l: "int (length (rep p @ [ch])) = K + 1" using sam_invD(7)[OF inv p(1)] p(3) by simp
  show "llen ss (nat qi) < K + 1" using sam_walk_suffix(2)[OF inv e(3)] l by simp
qed

text \<open>
  In that situation, a word that leads to \<open>q\<close> and is no longer than \<open>rep p @ [ch]\<close> is a
  suffix of it.
\<close>

lemma split_short:
  assumes inv: "sam_inv s ss lst rep"
    and p: "p < length ss" "suffix (rep p) s" "len (ss ! p) = K"
    and q: "nxt (ss ! p) ch = Some qi" "len (ss ! nat qi) \<noteq> K + 1"
    and w: "walk ss 0 w = Some (nat qi)" "int (length w) \<le> K + 1"
  shows "suffix w (rep p @ [ch])"
proof -
  note f = split_facts[OF inv p q]
  have "suffix w (rep (nat qi))" using sam_walk_suffix(1)[OF inv w(1)] .
  then show ?thesis using w(2) f(8) by (intro suffix_length_suffix[OF _ f(5)]) simp_all
qed

text \<open>
  The walks of the automaton after a call of \<open>extend\<close> that makes a clone: of the
  substrings of \<open>s\<close>, those that led to \<open>q\<close> and are no longer than \<open>rep p @ [ch]\<close> lead to
  the clone and the others lead where they led; the other suffixes of \<open>s @ [ch]\<close> lead to
  the new state.
\<close>

lemma split_walk:
  assumes inv: "sam_inv s ss lst rep"
    and F: "\<And>x. suffix x s \<Longrightarrow> sublist (x @ [ch]) s \<longleftrightarrow> int (length x) \<le> K"
    and p: "p < length ss" "suffix (rep p) s" "len (ss ! p) = K"
    and q: "nxt (ss ! p) ch = Some (int q)" "len (ss ! q) \<noteq> K + 1"
    and J: "\<And>i. i < length ss \<Longrightarrow> suffix (rep i) s \<Longrightarrow> len (ss ! i) \<le> K \<Longrightarrow>
              (nxt (ss ! i) ch = Some (int q) \<longleftrightarrow> J < len (ss ! i))"
    and N1: "\<And>i. i < length ss \<Longrightarrow>
              nxt (ss' ! i) = nxt (mark2 s rep ch (int (length ss)) (int (length ss) + 1) J K ss ! i)"
    and N2: "nxt (ss' ! length ss) = Map.empty"
    and N3: "nxt (ss' ! Suc (length ss)) = nxt (mark s rep ch (int (length ss)) K ss ! q)"
  shows "walk ss' 0 w =
     (if sublist w s
      then (if walk ss 0 w = Some q \<and> int (length w) \<le> K + 1 then Some (Suc (length ss))
            else walk ss 0 w)
      else if suffix w (s @ [ch]) then Some (length ss) else None)"
proof (induction w rule: rev_induct)
  case Nil
  have "0 < q" using split_facts(2)[OF inv p, of ch "int q"] q by simp
  then show ?case by simp
next
  case (snoc a w)
  let ?n = "length ss"
  have q': "nxt (ss ! p) ch = Some (int q)" "len (ss ! nat (int q)) \<noteq> K + 1" using q by simp_all
  note f = split_facts[OF inv p q', simplified]
  have nth': "nxt (ss' ! v) c =
      (if suffix (rep v) s \<and> K < len (ss ! v) \<and> c = ch then Some (int ?n)
       else if suffix (rep v) s \<and> J < len (ss ! v) \<and> len (ss ! v) \<le> K \<and> c = ch
            then Some (int ?n + 1)
       else nxt (ss ! v) c)" if "v < ?n" for v c
    using that by (auto simp: N1 nth_mark2)
  have nthn: "nxt (ss' ! ?n) c = None" for c by (simp add: N2)
  have nthc: "nxt (ss' ! Suc ?n) c = (if suffix (rep q) s \<and> c = ch then Some (int ?n) else nxt (ss ! q) c)" for c
    using f(1,6) by (simp add: N3 nth_mark)
  show ?case
  proof (cases "sublist w s")
    case True
    then obtain v where v: "walk ss 0 w = Some v" using sam_invD(5)[OF inv] by blast
    have vn: "v < ?n" using sam_walk_valid[OF inv v] .
    show ?thesis
    proof (cases "v = q \<and> int (length w) \<le> K + 1")
      case B: True
      then have w': "walk ss' 0 w = Some (Suc ?n)" using snoc.IH True v by simp
      have vq: "walk ss 0 w = Some q" using v B by simp
      show ?thesis
      proof (cases "sublist (w @ [a]) s")
        case sub: True
        then obtain t where t: "nxt (ss ! q) a = Some t" using sam_snoc_sublist[OF inv vq, of a] by auto
        note e = sam_edge[OF inv f(1) t]
        have "(suffix (rep q) s \<and> a = ch) = False"
          using sam_marked_no_edge[OF inv F f(1)] f(6) t by auto
        then have "nxt (ss' ! Suc ?n) a = Some t" by (simp only: nthc if_False t)
        moreover have "walk ss 0 (w @ [a]) = Some (nat t)" using vq t by (simp add: walk_snoc)
        moreover have "nat t \<noteq> q" using e(5) by auto
        ultimately show ?thesis using sub w' by (simp add: walk_snoc)
      next
        case nsub: False
        then have none: "nxt (ss ! q) a = None" using sam_snoc_sublist[OF inv vq, of a] by simp
        show ?thesis
        proof (cases "suffix (w @ [a]) (s @ [ch])")
          case True
          then have a: "a = ch" and ws: "suffix w s" by simp_all
          from sam_suffix_state[OF inv ws] vq have "suffix (rep q) s" by auto
          then have "nxt (ss' ! Suc ?n) a = Some (int ?n)" using a by (simp add: nthc)
          then show ?thesis using nsub True w' by (simp add: walk_snoc)
        next
          case False
          have "\<not> (suffix (rep q) s \<and> a = ch)"
          proof
            assume h: "suffix (rep q) s \<and> a = ch"
            have "suffix w (rep q)" using sam_walk_suffix(1)[OF inv vq] .
            then have "suffix w s" using h suffix_order.trans by blast
            then show False using False h by simp
          qed
          then have "(suffix (rep q) s \<and> a = ch) = False" by blast
          then have "nxt (ss' ! Suc ?n) a = None" by (simp only: nthc if_False none)
          then show ?thesis using nsub False w' by (simp add: walk_snoc)
        qed
      qed
    next
      case A: False
      then have w': "walk ss' 0 w = Some v" using snoc.IH True v by auto
      show ?thesis
      proof (cases "sublist (w @ [a]) s")
        case sub: True
        then obtain t where t: "nxt (ss ! v) a = Some t" using sam_snoc_sublist[OF inv v, of a] by auto
        have wa: "walk ss 0 (w @ [a]) = Some (nat t)" using v t by (simp add: walk_snoc)
        have m: "(suffix (rep v) s \<and> K < len (ss ! v) \<and> a = ch) = False"
          using sam_marked_no_edge[OF inv F vn] t by auto
        have r: "(suffix (rep v) s \<and> J < len (ss ! v) \<and> len (ss ! v) \<le> K \<and> a = ch)
            \<longleftrightarrow> (nat t = q \<and> int (length w) \<le> K)"
        proof
          assume h: "suffix (rep v) s \<and> J < len (ss ! v) \<and> len (ss ! v) \<le> K \<and> a = ch"
          then have "nxt (ss ! v) ch = Some (int q)" using J[OF vn] by simp
          then have "nat t = q" using t h by simp
          moreover have "int (length w) \<le> K" using sam_walk_suffix(3)[OF inv v] h by simp
          ultimately show "nat t = q \<and> int (length w) \<le> K" by simp
        next
          assume h: "nat t = q \<and> int (length w) \<le> K"
          have tq: "t = int q" using h sam_edge(1)[OF inv vn t] by linarith
          have "walk ss 0 (w @ [a]) = Some (nat (int q))" using wa h by simp
          from split_short[OF inv p q' this] h have "suffix (w @ [a]) (rep p @ [ch])" by simp
          then have a: "a = ch" and wp: "suffix w (rep p)" by simp_all
          have "suffix w s" using wp p(2) suffix_order.trans by blast
          from sam_suffix_state[OF inv this] v have sv: "suffix (rep v) s" by auto
          have lv: "len (ss ! v) \<le> K"
          proof (rule ccontr)
            assume "\<not> len (ss ! v) \<le> K"
            then have "nxt (ss ! v) ch = None" using sam_marked_no_edge[OF inv F vn sv] by simp
            then show False using t a by simp
          qed
          have "J < len (ss ! v)" using J[OF vn sv lv] t a tq by simp
          then show "suffix (rep v) s \<and> J < len (ss ! v) \<and> len (ss ! v) \<le> K \<and> a = ch"
            using sv lv a by simp
        qed
        show ?thesis
        proof (cases "nat t = q \<and> int (length w) \<le> K")
          case True
          then have "nxt (ss' ! v) a = Some (int ?n + 1)" using r m by (simp add: nth'[OF vn])
          then show ?thesis using sub w' wa True by (simp add: walk_snoc)
        next
          case False
          then have "(suffix (rep v) s \<and> J < len (ss ! v) \<and> len (ss ! v) \<le> K \<and> a = ch) = False"
            using r by blast
          then have "nxt (ss' ! v) a = Some t" using m by (simp only: nth'[OF vn] if_False t)
          then have "walk ss' 0 (w @ [a]) = Some (nat t)" using w' by (simp add: walk_snoc)
          then show ?thesis using sub wa False by auto
        qed
      next
        case nsub: False
        then have none: "nxt (ss ! v) a = None" using sam_snoc_sublist[OF inv v, of a] by simp
        have r: "(suffix (rep v) s \<and> J < len (ss ! v) \<and> len (ss ! v) \<le> K \<and> a = ch) = False"
          using J[OF vn] none by auto
        show ?thesis
        proof (cases "suffix (w @ [a]) (s @ [ch])")
          case True
          then have a: "a = ch" and ws: "suffix w s" by simp_all
          from sam_suffix_state[OF inv ws] v have sv: "suffix (rep v) s" by auto
          have "K < int (length w)" using F[OF ws] nsub a by simp
          then have "K < len (ss ! v)" using sam_walk_suffix(3)[OF inv v] by simp
          then have "nxt (ss' ! v) a = Some (int ?n)" using nth'[OF vn, of a] sv a by simp
          then show ?thesis using nsub True w' by (simp add: walk_snoc)
        next
          case False
          have "\<not> (suffix (rep v) s \<and> a = ch)"
          proof
            assume h: "suffix (rep v) s \<and> a = ch"
            have "suffix w (rep v)" using sam_walk_suffix(1)[OF inv v] .
            then have "suffix w s" using h suffix_order.trans by blast
            then show False using False h by simp
          qed
          then have "(suffix (rep v) s \<and> K < len (ss ! v) \<and> a = ch) = False" by blast
          then have "nxt (ss' ! v) a = None" using r by (simp only: nth'[OF vn] if_False none)
          then show ?thesis using nsub False w' by (simp add: walk_snoc)
        qed
      qed
    qed
  next
    case False
    have nsub: "\<not> sublist (w @ [a]) s"
    proof
      assume "sublist (w @ [a]) s"
      from sublist_snoc_left[OF this] show False using False by simp
    qed
    have nsuf: "\<not> suffix (w @ [a]) (s @ [ch])"
    proof
      assume "suffix (w @ [a]) (s @ [ch])"
      then have "suffix w s" by simp
      then show False using False by (simp add: suffix_imp_sublist)
    qed
    show ?thesis
    proof (cases "suffix w (s @ [ch])")
      case True
      then have "walk ss' 0 w = Some ?n" using snoc.IH False by simp
      then show ?thesis using nsub nsuf nthn by (simp add: walk_snoc)
    next
      case nsw: False
      then have "walk ss' 0 w = None" using snoc.IH False by simp
      then show ?thesis using nsub nsuf by (simp add: walk_snoc)
    qed
  qed
qed

lemma sam_inv_split:
  assumes inv: "sam_inv s ss lst rep"
    and F: "\<And>x. suffix x s \<Longrightarrow> sublist (x @ [ch]) s \<longleftrightarrow> int (length x) \<le> K"
    and p: "p < length ss" "suffix (rep p) s" "len (ss ! p) = K"
    and q: "nxt (ss ! p) ch = Some (int q)" "len (ss ! q) \<noteq> K + 1"
    and J: "\<And>i. i < length ss \<Longrightarrow> suffix (rep i) s \<Longrightarrow> len (ss ! i) \<le> K \<Longrightarrow>
              (nxt (ss ! i) ch = Some (int q) \<longleftrightarrow> J < len (ss ! i))"
  shows "sam_inv (s @ [ch])
           ((mark2 s rep ch (int (length ss)) (int (length ss) + 1) J K ss)
               [q := (mark2 s rep ch (int (length ss)) (int (length ss) + 1) J K ss ! q)
                       \<lparr>link := int (length ss) + 1\<rparr>]
              @ [\<lparr>nxt = Map.empty, link = int (length ss) + 1, len = len (ss ! nat lst) + 1\<rparr>,
                 \<lparr>nxt = nxt (mark s rep ch (int (length ss)) K ss ! q), link = link (ss ! q),
                   len = K + 1\<rparr>])
           (int (length ss)) (rep(length ss := s @ [ch], Suc (length ss) := rep p @ [ch]))"
proof -
  let ?n = "length ss"
  let ?M = "mark2 s rep ch (int ?n) (int ?n + 1) J K ss"
  let ?X = "\<lparr>nxt = Map.empty, link = int ?n + 1, len = len (ss ! nat lst) + 1\<rparr> :: 'a state"
  let ?C = "\<lparr>nxt = nxt (mark s rep ch (int ?n) K ss ! q), link = link (ss ! q), len = K + 1\<rparr> :: 'a state"
  define ss' where "ss' = ?M[q := (?M ! q)\<lparr>link := int ?n + 1\<rparr>] @ [?X, ?C]"
  let ?s' = "s @ [ch]"
  let ?t = "rep p @ [ch]"
  let ?rep' = "rep(?n := ?s', Suc ?n := ?t)"
  note wf = sam_invD(1)[OF inv]
  have n0: "0 < ?n" using wf_statesD(2)[OF wf] .
  have q': "nxt (ss ! p) ch = Some (int q)" "len (ss ! nat (int q)) \<noteq> K + 1" using q by simp_all
  note f = split_facts[OF inv p q', simplified]
  have M: "len (?M ! i) = len (ss ! i)" "link (?M ! i) = link (ss ! i)" if "i < ?n" for i
    using that by (simp_all add: nth_mark2)
  have nth: "ss' ! v = (if v = q then (?M ! q)\<lparr>link := int ?n + 1\<rparr> else ?M ! v)"
    if "v < ?n" for v
    using that f(1) by (simp add: ss'_def nth_append nth_list_update)
  have len': "len (ss' ! v) = len (ss ! v)" if "v < ?n" for v
    using M[OF that] M[OF f(1)] by (simp add: nth[OF that])
  have link': "link (ss' ! v) = (if v = q then int ?n + 1 else link (ss ! v))" if "v < ?n" for v
    using M[OF that] by (simp add: nth[OF that])
  have N1: "nxt (ss' ! v) = nxt (?M ! v)" if "v < ?n" for v
    by (simp add: nth[OF that])
  have lss': "length ss' = ?n + 2" by (simp add: ss'_def)
  have Xn: "len (ss' ! ?n) = len (ss ! nat lst) + 1" "link (ss' ! ?n) = int ?n + 1"
    by (simp_all add: ss'_def nth_append)
  have Cn: "len (ss' ! Suc ?n) = K + 1" "link (ss' ! Suc ?n) = link (ss ! q)"
    by (simp_all add: ss'_def nth_append)
  have N2: "nxt (ss' ! ?n) = Map.empty" by (simp add: ss'_def nth_append)
  have N3: "nxt (ss' ! Suc ?n) = nxt (mark s rep ch (int ?n) K ss ! q)"
    by (simp add: ss'_def nth_append)
  have walk': "walk ss' 0 w =
     (if sublist w s
      then (if walk ss 0 w = Some q \<and> int (length w) \<le> K + 1 then Some (Suc ?n)
            else walk ss 0 w)
      else if suffix w ?s' then Some ?n else None)" for w
    by (rule split_walk[OF inv F p q J N1 N2 N3])
  have nth': "t = int ?n \<or> t = int ?n + 1 \<or> nxt (ss ! v) c = Some t"
    if "v < ?n" "nxt (ss' ! v) c = Some t" for v c t
  proof -
    from that(2) have "nxt (?M ! v) c = Some t" by (simp only: N1[OF that(1)])
    then show ?thesis using that(1) by (auto simp: nth_mark2 split: if_splits)
  qed
  have nthc: "t = int ?n \<or> nxt (ss ! q) c = Some t" if "nxt (ss' ! Suc ?n) c = Some t" for c t
  proof -
    from that have "nxt (mark s rep ch (int ?n) K ss ! q) c = Some t" by (simp only: N3)
    then show ?thesis using f(1) by (auto simp: nth_mark split: if_splits)
  qed
  have lq: "0 \<le> link (ss ! q)" "nat (link (ss ! q)) < ?n" "link (ss ! q) \<noteq> - 1"
    "llen ss q = len (ss ! nat (link (ss ! q)))"
    using sam_link_valid[OF inv f(1,2)] by simp_all
  have nS: "nat (int ?n + 1) = Suc ?n" by simp
  have llen': "llen ss' v = (if v = q then K + 1 else llen ss v)" if v: "v < ?n" for v
  proof (cases "v = 0")
    case True
    then show ?thesis using wf_statesD(4)[OF wf] link'[OF n0] f(2) by (simp add: llen_def)
  next
    case False
    then have "0 < v" by simp
    note lv = sam_link_valid[OF inv v this]
    show ?thesis
    proof (cases "v = q")
      case True
      then show ?thesis using link'[OF v] by (simp add: llen_def Cn nS)
    next
      case False
      then show ?thesis using lv(2,3) link'[OF v] len'[OF lv(2)] by (simp add: llen_def)
    qed
  qed
  have llenn: "llen ss' ?n = K + 1" by (simp add: llen_def Xn Cn nS)
  have llenc: "llen ss' (Suc ?n) = llen ss q"
    using lq len'[OF lq(2)] by (simp add: llen_def Cn)
  have Kl: "K < len (ss ! nat lst)" using sam_K_bounds(2)[OF inv F] .
  have lens: "len (ss ! nat lst) = int (length s)"
    using sam_invD(7)[OF inv sam_invD(4)[OF inv]] sam_invD(11)[OF inv] by simp
  have K0: "0 \<le> K" using p(3) sam_len_nonneg(1)[OF inv p(1)] by simp
  have wf': "wf_states ss'"
    unfolding wf_states_def
  proof (intro conjI allI impI)
    show "ss' \<noteq> []" using lss' by auto
    show "len (ss' ! 0) = 0" using len'[OF n0] wf_statesD(3)[OF wf] by simp
    show "link (ss' ! 0) = - 1" using link'[OF n0] wf_statesD(4)[OF wf] f(2) by simp
  next
    fix i assume "i < length ss'" and i0: "0 < i"
    then have i: "i < ?n + 2" "0 < i" by (simp_all add: lss')
    show "0 \<le> link (ss' ! i)" "link (ss' ! i) < int (length ss')"
    proof -
      consider "i = ?n" | "i = Suc ?n" | "i < ?n" using i by force
      then have "0 \<le> link (ss' ! i) \<and> link (ss' ! i) < int (length ss')"
      proof cases
        case 1
        then show ?thesis by (simp add: Xn lss')
      next
        case 2
        then show ?thesis using lq by (simp add: Cn lss')
      next
        case 3
        from wf_statesD(5)[OF wf 3 i(2)] link'[OF 3] show ?thesis by (simp add: lss')
      qed
      then show "0 \<le> link (ss' ! i)" "link (ss' ! i) < int (length ss')" by simp_all
    qed
  next
    fix i c t assume "i < length ss'" and t: "nxt (ss' ! i) c = Some t"
    then have i: "i < ?n + 2" by (simp add: lss')
    show "0 < t" "t < int (length ss')"
    proof -
      consider "i = ?n" | "i = Suc ?n" | "i < ?n" using i by force
      then have "0 < t \<and> t < int (length ss')"
      proof cases
        case 1
        then show ?thesis using t by (simp add: N2)
      next
        case 2
        with nthc[of c t] t have "t = int ?n \<or> nxt (ss ! q) c = Some t" by blast
        then show ?thesis using wf_statesD(6)[OF wf f(1), of c t] n0 by (auto simp: lss')
      next
        case 3
        from nth'[OF 3 t] have "t = int ?n \<or> t = int ?n + 1 \<or> nxt (ss ! i) c = Some t" .
        then show ?thesis using wf_statesD(6)[OF wf 3, of c t] n0 by (auto simp: lss')
      qed
      then show "0 < t" "t < int (length ss')" by simp_all
    qed
  qed
  have tsub: "sublist ?t s" using sam_edge(6)[OF inv p(1) q(1)] .
  have lt: "int (length ?t) = K + 1" using f(8) by simp
  have "sam_inv ?s' ss' (int ?n) ?rep'"
    unfolding sam_inv_def
  proof (intro conjI allI impI)
    show "wf_states ss'" by (rule wf')
    show "0 \<le> int ?n" by simp
    show "int ?n < int (length ss')" by (simp add: lss')
  next
    fix w assume "sublist w ?s'"
    then have "suffix w ?s' \<or> sublist w s" by (simp only: sublist_snoc)
    then show "walk ss' 0 w \<noteq> None"
      using sam_invD(5)[OF inv, of w] by (auto simp: walk')
  next
    fix v assume "v < length ss'"
    then have v: "v < ?n + 2" by (simp add: lss')
    consider "v = ?n" | "v = Suc ?n" | "v < ?n" using v by force
    then show "sublist (?rep' v) ?s'"
    proof cases
      case 1
      then show ?thesis by simp
    next
      case 2
      then show ?thesis using tsub by (simp add: sublist_snoc)
    next
      case 3
      from sam_invD(6)[OF inv this] have "sublist (rep v) ?s'" by (simp add: sublist_snoc)
      then show ?thesis using 3 by simp
    qed
    consider "v = ?n" | "v = Suc ?n" | "v < ?n" using v by force
    then show "len (ss' ! v) = int (length (?rep' v))"
    proof cases
      case 1
      then show ?thesis using lens by (simp add: Xn)
    next
      case 2
      then show ?thesis using lt by (simp add: Cn)
    next
      case 3
      show ?thesis using len'[OF 3] sam_invD(7)[OF inv 3] 3 by simp
    qed
  next
    fix v w assume "v < length ss'"
    then have v: "v < ?n + 2" by (simp add: lss')
    consider "v = ?n" | "v = Suc ?n" | "v < ?n" using v by force
    then show "walk ss' 0 w = Some v \<longleftrightarrow> suffix w (?rep' v) \<and> llen ss' v < int (length w)"
    proof cases
      case 1
      have a: "walk ss' 0 w = Some ?n \<longleftrightarrow> \<not> sublist w s \<and> suffix w ?s'"
      proof (cases "sublist w s")
        case sub: True
        then obtain u where u: "walk ss 0 w = Some u" using sam_invD(5)[OF inv] by blast
        have "u < ?n" using sam_walk_valid[OF inv u] .
        then show ?thesis using sub u by (simp add: walk')
      next
        case False
        then show ?thesis by (simp add: walk')
      qed
      have b: "\<not> sublist w s \<longleftrightarrow> K + 1 < int (length w)" if sw: "suffix w ?s'"
      proof (cases w rule: rev_cases)
        case Nil
        then show ?thesis using K0 by simp
      next
        case (snoc x c)
        with sw have c: "c = ch" and xs: "suffix x s" by simp_all
        show ?thesis using F[OF xs] snoc c by auto
      qed
      show ?thesis using 1 a b llenn by auto
    next
      case 2
      have a: "walk ss' 0 w = Some (Suc ?n) \<longleftrightarrow> walk ss 0 w = Some q \<and> int (length w) \<le> K + 1"
      proof (cases "sublist w s")
        case sub: True
        then obtain u where u: "walk ss 0 w = Some u" using sam_invD(5)[OF inv] by blast
        have "u < ?n" using sam_walk_valid[OF inv u] .
        then show ?thesis using sub u by (simp add: walk')
      next
        case False
        then have "walk ss 0 w = None" using sam_walk_sublist[OF inv, of w] by simp
        then show ?thesis using False by (simp add: walk')
      qed
      have b: "suffix w (rep q) \<and> int (length w) \<le> K + 1 \<longleftrightarrow> suffix w ?t"
      proof
        assume "suffix w (rep q) \<and> int (length w) \<le> K + 1"
        then show "suffix w ?t" using lt by (intro suffix_length_suffix[OF _ f(5)]) simp_all
      next
        assume h: "suffix w ?t"
        then have "suffix w (rep q)" using f(5) suffix_order.trans by blast
        moreover have "int (length w) \<le> K + 1" using suffix_length_le[OF h] lt by simp
        ultimately show "suffix w (rep q) \<and> int (length w) \<le> K + 1" by simp
      qed
      show ?thesis using 2 a b sam_invD(8)[OF inv f(1), of w] llenc by auto
    next
      case 3
      have a: "walk ss' 0 w = Some v \<longleftrightarrow>
          walk ss 0 w = Some v \<and> \<not> (v = q \<and> int (length w) \<le> K + 1)"
      proof (cases "sublist w s")
        case True
        then show ?thesis using 3 by (auto simp: walk')
      next
        case nsub: False
        then have "walk ss 0 w = None" using sam_walk_sublist[OF inv, of w] by simp
        then show ?thesis using nsub 3 by (simp add: walk')
      qed
      show ?thesis
      proof (cases "v = q")
        case True
        then show ?thesis using a sam_invD(8)[OF inv f(1), of w] llen'[OF 3] 3 f(7) by auto
      next
        case False
        then show ?thesis using a sam_invD(8)[OF inv 3, of w] llen'[OF 3] 3 by simp
      qed
    qed
  next
    fix v assume "v < length ss'" and v0: "0 < v"
    then have v: "v < ?n + 2" "0 < v" by (simp_all add: lss')
    consider "v = ?n" | "v = Suc ?n" | "v < ?n" using v by force
    then have "suffix (?rep' (nat (link (ss' ! v)))) (?rep' v)
      \<and> len (ss' ! nat (link (ss' ! v))) < len (ss' ! v)"
    proof cases
      case 1
      show ?thesis using 1 p(2) Kl by (simp add: Xn Cn nS)
    next
      case 2
      let ?r = "nat (link (ss ! q))"
      have "suffix (rep ?r) (rep q)" using sam_invD(9)[OF inv f(1,2)] .
      moreover have "int (length (rep ?r)) < K + 1" using f(7) lq(4) sam_invD(7)[OF inv lq(2)] by simp
      ultimately have "suffix (rep ?r) ?t" using lt by (intro suffix_length_suffix[OF _ f(5)]) simp_all
      moreover have "len (ss ! ?r) < K + 1" using f(7) lq(4) by simp
      ultimately show ?thesis using 2 lq(2) len'[OF lq(2)] by (simp add: Cn)
    next
      case 3
      show ?thesis
      proof (cases "v = q")
        case True
        show ?thesis using True 3 link'[OF 3] len'[OF 3] f(5,6) by (simp add: Cn nS)
      next
        case False
        note lv = sam_link_valid[OF inv 3 v(2)]
        show ?thesis
          using sam_invD(9,10)[OF inv 3 v(2)] lv(2) link'[OF 3] len'[OF 3] len'[OF lv(2)] False 3
          by simp
      qed
    qed
    then show "suffix (?rep' (nat (link (ss' ! v)))) (?rep' v)"
      "len (ss' ! nat (link (ss' ! v))) < len (ss' ! v)" by simp_all
  next
    show "?rep' (nat (int ?n)) = ?s'" by simp
  qed
  then show ?thesis by (simp only: ss'_def)
qed

lemma mark2_step:
  assumes inv: "sam_inv s ss lst rep" and k: "k < length ss" and sk: "suffix (rep k) s"
    and kK: "len (ss ! k) \<le> K"
  shows "(mark2 s rep ch cur clone (len (ss ! k)) K ss @ Y)
            [k := ((mark2 s rep ch cur clone (len (ss ! k)) K ss @ Y) ! k)
                    \<lparr>nxt := (nxt ((mark2 s rep ch cur clone (len (ss ! k)) K ss @ Y) ! k))(ch \<mapsto> clone)\<rparr>]
         = mark2 s rep ch cur clone (llen ss k) K ss @ Y"
    (is "?L = ?R")
proof (rule nth_equalityI)
  show "length ?L = length ?R" by simp
next
  fix i assume "i < length ?L"
  then have i: "i < length ss + length Y" by simp
  show "?L ! i = ?R ! i"
  proof (cases "i < length ss")
    case False
    then show ?thesis using k i by (simp add: nth_append)
  next
    case il: True
    show ?thesis
    proof (cases "i = k")
      case True
      then show ?thesis using k sk kK sam_llen_less[OF inv k] by (simp add: nth_append nth_mark2)
    next
      case ik: False
      have "\<not> (suffix (rep i) s \<and> llen ss k < len (ss ! i) \<and> len (ss ! i) \<le> len (ss ! k))"
        using sam_suffix_unique[OF inv k il sk] ik by blast
      moreover have "llen ss k < len (ss ! k)" using sam_llen_less[OF inv k] .
      ultimately show ?thesis using il ik k by (auto simp: nth_append nth_mark2)
    qed
  qed
qed

lemma extend_redirect_mark2:
  assumes inv: "sam_inv s ss lst rep"
  shows "p = - 1 \<or> (0 \<le> p \<and> nat p < length ss \<and> suffix (rep (nat p)) s) \<Longrightarrow>
    lenp ss p \<le> K \<Longrightarrow>
    (\<forall>i<length ss. suffix (rep i) s \<and> lenp ss p < len (ss ! i) \<and> len (ss ! i) \<le> K
        \<longrightarrow> nxt (ss ! i) ch = Some q) \<Longrightarrow>
    \<exists>p'. extend_redirect (mark2 s rep ch cur clone (lenp ss p) K ss @ Y) ch q clone p
             = Some (Inr (mark2 s rep ch cur clone (lenp ss p') K ss @ Y, p'))
      \<and> (p' = - 1 \<or> (0 \<le> p' \<and> nat p' < length ss \<and> suffix (rep (nat p')) s \<and>
             nxt (ss ! nat p') ch \<noteq> Some q))
      \<and> lenp ss p' \<le> K
      \<and> (\<forall>i<length ss. suffix (rep i) s \<and> lenp ss p' < len (ss ! i) \<and> len (ss ! i) \<le> K
            \<longrightarrow> nxt (ss ! i) ch = Some q)"
proof (induction "nat (lenp ss p + 1)" arbitrary: p rule: less_induct)
  case less
  show ?case
  proof (cases "p = - 1")
    case True
    have "extend_redirect (mark2 s rep ch cur clone (lenp ss p) K ss @ Y) ch q clone p
             = Some (Inr (mark2 s rep ch cur clone (lenp ss p) K ss @ Y, p))"
      using True by (subst extend_redirect.simps) simp
    then show ?thesis using True less.prems(2,3) by blast
  next
    case False
    with less.prems(1) have p: "0 \<le> p" "nat p < length ss" "suffix (rep (nat p)) s" by simp_all
    let ?k = "nat p"
    let ?M = "mark2 s rep ch cur clone (lenp ss p) K ss @ Y"
    have J: "lenp ss p = len (ss ! ?k)" using False by (simp add: lenp_def)
    have kK: "len (ss ! ?k) \<le> K" using less.prems(2) J by simp
    have ix: "py_index ?M p = Inr ?k" using p by (simp add: py_index_def Let_def)
    have Mk: "?M ! ?k = ss ! ?k" using p J kK by (simp add: nth_append nth_mark2)
    show ?thesis
    proof (cases "nxt (ss ! ?k) ch = Some q")
      case edge: False
      have "extend_redirect ?M ch q clone p = Some (Inr (?M, p))"
        using False ix Mk edge by (subst extend_redirect.simps) simp
      then show ?thesis using p edge less.prems(2,3) by blast
    next
      case True
      let ?p1 = "link (ss ! ?k)"
      have step: "extend_redirect ?M ch q clone p
        = extend_redirect (?M[?k := (?M ! ?k)\<lparr>nxt := (nxt (?M ! ?k))(ch \<mapsto> clone)\<rparr>]) ch q clone
            (link (?M ! ?k))"
        using False ix Mk True by (subst extend_redirect.simps) simp
      have M1: "?M[?k := (?M ! ?k)\<lparr>nxt := (nxt (?M ! ?k))(ch \<mapsto> clone)\<rparr>]
          = mark2 s rep ch cur clone (lenp ss ?p1) K ss @ Y"
        using mark2_step[OF inv p(2,3) kK, of ch cur clone Y] J sam_link_step(1)[OF inv p(2,3)] by simp
      have less1: "nat (lenp ss ?p1 + 1) < nat (lenp ss p + 1)"
        using sam_link_step(1)[OF inv p(2,3)] J sam_llen_less[OF inv p(2)] sam_len_nonneg[OF inv p(2)]
        by simp
      have le1: "lenp ss ?p1 \<le> K"
        using sam_link_step(1)[OF inv p(2,3)] sam_llen_less[OF inv p(2)] kK by simp
      have inv1: "\<forall>i<length ss. suffix (rep i) s \<and> lenp ss ?p1 < len (ss ! i) \<and> len (ss ! i) \<le> K
            \<longrightarrow> nxt (ss ! i) ch = Some q"
      proof (intro allI impI)
        fix i assume i: "i < length ss"
          and a: "suffix (rep i) s \<and> lenp ss ?p1 < len (ss ! i) \<and> len (ss ! i) \<le> K"
        show "nxt (ss ! i) ch = Some q"
        proof (cases "lenp ss p < len (ss ! i)")
          case True
          then show ?thesis using less.prems(3) i a by blast
        next
          case False
          then have "i = ?k"
            using sam_suffix_unique[OF inv p(2) i p(3)] a J sam_link_step(1)[OF inv p(2,3)] by simp
          then show ?thesis using True by simp
        qed
      qed
      from less.hyps[OF less1 sam_link_step(2)[OF inv p(2,3)] le1 inv1]
      show ?thesis unfolding step Mk M1[unfolded Mk] .
    qed
  qed
qed

text \<open>
  When the second loop stops, the states whose transition it has redirected are all the
  states of suffixes of \<open>s\<close>, of length at most \<open>K\<close>, whose transition on \<open>ch\<close> led to
  \<open>q\<close>.
\<close>

lemma redirect_exit:
  assumes inv: "sam_inv s ss lst rep"
    and p: "p < length ss" "suffix (rep p) s" "len (ss ! p) = K"
    and q: "nxt (ss ! p) ch = Some qi" "len (ss ! nat qi) \<noteq> K + 1"
    and p': "p' = - 1 \<or> (0 \<le> p' \<and> nat p' < length ss \<and> suffix (rep (nat p')) s \<and>
             nxt (ss ! nat p') ch \<noteq> Some qi)"
    and pK: "lenp ss p' \<le> K"
    and fin: "\<forall>i<length ss. suffix (rep i) s \<and> lenp ss p' < len (ss ! i) \<and> len (ss ! i) \<le> K
            \<longrightarrow> nxt (ss ! i) ch = Some qi"
    and i: "i < length ss" "suffix (rep i) s" "len (ss ! i) \<le> K"
  shows "nxt (ss ! i) ch = Some qi \<longleftrightarrow> lenp ss p' < len (ss ! i)"
proof
  assume "lenp ss p' < len (ss ! i)"
  then show "nxt (ss ! i) ch = Some qi" using fin i by blast
next
  assume e: "nxt (ss ! i) ch = Some qi"
  note f = split_facts[OF inv p q]
  show "lenp ss p' < len (ss ! i)"
  proof (rule ccontr)
    assume "\<not> lenp ss p' < len (ss ! i)"
    then have le: "len (ss ! i) \<le> lenp ss p'" by simp
    then have n1: "p' \<noteq> - 1" using sam_len_nonneg(1)[OF inv i(1)] by (auto simp: lenp_def)
    with p' have k: "nat p' < length ss" "suffix (rep (nat p')) s" "nxt (ss ! nat p') ch \<noteq> Some qi"
      by simp_all
    let ?k = "nat p'"
    have lk: "lenp ss p' = len (ss ! ?k)" using n1 by (simp add: lenp_def)
    have "suffix (rep ?k) (rep p)"
      using pK lk p(3) sam_invD(7)[OF inv p(1)] sam_invD(7)[OF inv k(1)]
      by (intro suffix_length_suffix[OF k(2) p(2)]) simp
    then have "suffix (rep ?k @ [ch]) (rep p @ [ch])" by simp
    then have s1: "suffix (rep ?k @ [ch]) (rep (nat qi))" using f(5) suffix_order.trans by blast
    have "llen ss (nat qi) < int (length (rep i @ [ch]))"
      using sam_walk_suffix(2)[OF inv sam_edge(3)[OF inv i(1) e]] .
    then have s2: "llen ss (nat qi) < int (length (rep ?k @ [ch]))"
      using le lk sam_invD(7)[OF inv i(1)] sam_invD(7)[OF inv k(1)] by simp
    have w: "walk ss 0 (rep ?k @ [ch]) = Some (nat qi)"
      using sam_invD(8)[OF inv f(1), of "rep ?k @ [ch]"] s1 s2 by simp
    then obtain t where t: "nxt (ss ! ?k) ch = Some t" and tq: "nat t = nat qi"
      using sam_walk_rep[OF inv k(1)] by (auto simp: walk_snoc split: option.splits)
    have "0 < t" using sam_edge(1)[OF inv k(1) t] .
    moreover have "0 < qi" using sam_edge(1)[OF inv p(1) q(1)] .
    ultimately have "t = qi" using tq by linarith
    then show False using t k(3) by simp
  qed
qed

lemma py_get_valid: "0 \<le> i \<Longrightarrow> nat i < length xs \<Longrightarrow> py_get xs i = Inr (xs ! nat i)"
  by (simp add: py_get_def py_index_def Let_def)

lemma set_link_valid:
  "0 \<le> i \<Longrightarrow> nat i < length ss \<Longrightarrow> set_link ss i v = Inr (ss[nat i := (ss ! nat i)\<lparr>link := v\<rparr>])"
  by (simp add: set_link_def py_index_def Let_def)

lemma set_len_valid:
  "0 \<le> i \<Longrightarrow> nat i < length ss \<Longrightarrow> set_len ss i v = Inr (ss[nat i := (ss ! nat i)\<lparr>len := v\<rparr>])"
  by (simp add: set_len_def py_index_def Let_def)

lemma set_nxt_valid:
  "0 \<le> i \<Longrightarrow> nat i < length ss \<Longrightarrow> set_nxt ss i m = Inr (ss[nat i := (ss ! nat i)\<lparr>nxt := m\<rparr>])"
  by (simp add: set_nxt_def py_index_def Let_def)

text \<open>The branch of \<open>extend\<close> that makes a clone, on valid indices.\<close>

lemma extend_clone_eval:
  assumes p: "0 \<le> p" "nat p < length ss" and q: "0 \<le> q" "nat q < length ss"
    and cur: "0 \<le> cur" "nat cur < length ss"
    and r: "extend_redirect
              (ss @ [\<lparr>nxt = nxt (ss ! nat q), link = link (ss ! nat q), len = len (ss ! nat p) + 1\<rparr>])
              ch q (int (length ss)) p = Some (Inr (ss5, p'))"
  shows "extend_clone ss ch cur p q =
     Some (Inr (ss5[nat q := (ss5 ! nat q)\<lparr>link := int (length ss)\<rparr>,
                    nat cur := (ss5[nat q := (ss5 ! nat q)\<lparr>link := int (length ss)\<rparr>] ! nat cur)
                                 \<lparr>link := int (length ss)\<rparr>]))"
proof -
  let ?n = "length ss"
  let ?ss1 = "ss @ [State]"
  have l5: "length ss5 = ?n + 1" using extend_redirect_frame(1)[OF r] by simp
  have g1: "py_get ?ss1 q = Inr (ss ! nat q)" using q by (simp add: py_get_valid nth_append)
  have g2: "set_nxt ?ss1 (int ?n) m = Inr (ss @ [State\<lparr>nxt := m\<rparr>])" for m
    by (simp add: set_nxt_valid)
  have g3: "py_get (ss @ [x]) p = Inr (ss ! nat p)" for x using p by (simp add: py_get_valid nth_append)
  have g4: "set_len (ss @ [x]) (int ?n) v = Inr (ss @ [x\<lparr>len := v\<rparr>])" for x v
    by (simp add: set_len_valid)
  have g5: "py_get (ss @ [x]) q = Inr (ss ! nat q)" for x using q by (simp add: py_get_valid nth_append)
  have g6: "set_link (ss @ [x]) (int ?n) v = Inr (ss @ [x\<lparr>link := v\<rparr>])" for x v
    by (simp add: set_link_valid)
  have C: "State\<lparr>nxt := nxt (ss ! nat q), len := len (ss ! nat p) + 1, link := link (ss ! nat q)\<rparr>
      = \<lparr>nxt = nxt (ss ! nat q), link = link (ss ! nat q), len = len (ss ! nat p) + 1\<rparr>"
    by (simp add: State_def)
  have g7: "set_link ss5 q v = Inr (ss5[nat q := (ss5 ! nat q)\<lparr>link := v\<rparr>])" for v
    using q l5 by (simp add: set_link_valid)
  have g8: "set_link (ss5[nat q := x]) cur v
      = Inr (ss5[nat q := x, nat cur := (ss5[nat q := x] ! nat cur)\<lparr>link := v\<rparr>])" for x v
    using cur l5 by (simp add: set_link_valid)
  show ?thesis
    unfolding extend_clone_def Let_def
    by (simp only: g1 g2 g3 g4 g5 g6 C r g7 g8 sum.case option.case prod.case state.simps)
qed

text \<open>
  One call of \<open>extend\<close> on an automaton that satisfies the invariant for \<open>s\<close>: the call
  returns, and the automaton it leaves satisfies the invariant for \<open>s @ [ch]\<close>.
\<close>

lemma extend_step:
  assumes inv: "sam_inv s (states A) (last_st A) rep"
  shows "\<exists>A' rep'. extend A ch = Some (Inr A') \<and> sam_inv (s @ [ch]) (states A') (last_st A') rep'
    \<and> (length (states A') = length (states A) + 1
         \<or> length (states A') = length (states A) + 2 \<and> 2 \<le> length s)"
proof -
  let ?ss = "states A"
  let ?lst = "last_st A"
  let ?n = "length ?ss"
  note lst = sam_invD(2,4)[OF inv]
  define X0 :: "'a state" where "X0 = \<lparr>nxt = Map.empty, link = - 1, len = len (?ss ! nat ?lst) + 1\<rparr>"
  have g1: "py_get (?ss @ [State]) ?lst = Inr (?ss ! nat ?lst)"
    using lst by (simp add: py_get_valid nth_append)
  have g2: "set_len (?ss @ [State]) (int ?n) (len (?ss ! nat ?lst) + 1) = Inr (?ss @ [X0])"
    by (simp add: set_len_valid X0_def State_def)
  have lens: "len (?ss ! nat ?lst) = int (length s)"
    using sam_invD(7)[OF inv lst(2)] sam_invD(11)[OF inv] by simp
  have lp: "lenp ?ss ?lst = int (length s)" using lst(1) lens by (simp add: lenp_def)
  have m0: "mark s rep ch (int ?n) (lenp ?ss ?lst) ?ss = ?ss"
  proof (rule mark_id)
    fix i assume i: "i < ?n" "suffix (rep i) s"
    show "len (?ss ! i) \<le> lenp ?ss ?lst"
      using suffix_length_le[OF i(2)] sam_invD(7)[OF inv i(1)] lp by simp
  qed
  have pre1: "?lst = - 1 \<or> (0 \<le> ?lst \<and> nat ?lst < ?n \<and> suffix (rep (nat ?lst)) s)"
    using lst sam_invD(11)[OF inv] by simp
  have pre2: "\<forall>i<?n. suffix (rep i) s \<and> lenp ?ss ?lst < len (?ss ! i) \<longrightarrow> nxt (?ss ! i) ch = None"
  proof (intro allI impI)
    fix i assume i: "i < ?n" and a: "suffix (rep i) s \<and> lenp ?ss ?lst < len (?ss ! i)"
    have "len (?ss ! i) \<le> lenp ?ss ?lst"
      using a suffix_length_le[of "rep i" s] sam_invD(7)[OF inv i] lp by simp
    then show "nxt (?ss ! i) ch = None" using a by simp
  qed
  from extend_walk_mark[OF inv pre1 pre2, of "int ?n" X0]
  obtain p' where w: "extend_walk (?ss @ [X0]) ch (int ?n) ?lst
        = Inr (mark s rep ch (int ?n) (lenp ?ss p') ?ss @ [X0], p')"
    and p': "p' = - 1 \<or> (0 \<le> p' \<and> nat p' < ?n \<and> suffix (rep (nat p')) s \<and> nxt (?ss ! nat p') ch \<noteq> None)"
    and none: "\<forall>i<?n. suffix (rep i) s \<and> lenp ?ss p' < len (?ss ! i) \<longrightarrow> nxt (?ss ! i) ch = None"
    unfolding m0 by blast
  define K where "K = lenp ?ss p'"
  define M where "M = mark s rep ch (int ?n) K ?ss"
  have lM: "length M = ?n" by (simp add: M_def)
  have w': "extend_walk (?ss @ [X0]) ch (int ?n) ?lst = Inr (M @ [X0], p')"
    using w by (simp add: M_def K_def)
  have F: "sublist (x @ [ch]) s \<longleftrightarrow> int (length x) \<le> K" if "suffix x s" for x
    unfolding K_def by (rule sam_new_suffix[OF inv p' none that])
  have sl: "set_link (M @ [X0]) (int ?n) v
      = Inr (M @ [\<lparr>nxt = Map.empty, link = v, len = len (?ss ! nat ?lst) + 1\<rparr>])" for v
    by (simp add: set_link_valid lM[symmetric] X0_def)
  have Mlen: "len (M ! i) = len (?ss ! i)" "link (M ! i) = link (?ss ! i)" if "i < ?n" for i
    using that by (simp_all add: M_def nth_mark)
  show ?thesis
  proof (cases "p' = - 1")
    case True
    have K: "K = - 1" using True by (simp add: K_def lenp_def)
    have "extend A ch = Some (Inr \<lparr>states = M @ [\<lparr>nxt = Map.empty, link = 0, len = len (?ss ! nat ?lst) + 1\<rparr>],
        last_st = int ?n\<rparr>)"
      unfolding extend_def Let_def
      by (simp only: g1 g2 w' sl True sum.case prod.case if_True simp_thms)
    moreover have "sam_inv (s @ [ch])
        (M @ [\<lparr>nxt = Map.empty, link = int 0, len = len (?ss ! nat ?lst) + 1\<rparr>]) (int ?n)
        (rep(?n := s @ [ch]))"
      unfolding M_def
    proof (rule sam_inv_plain[OF inv F])
      note wf = sam_invD(1)[OF inv]
      show "0 < ?n" using wf_statesD(2)[OF wf] .
      show "len (?ss ! 0) = K + 1" using wf_statesD(3)[OF wf] K by simp
      show "suffix (rep 0) (s @ [ch])" using sam_rep0(1)[OF inv] by simp
    qed
    ultimately show ?thesis by (auto simp: lM)
  next
    case False
    with p' have p: "0 \<le> p'" "nat p' < ?n" "suffix (rep (nat p')) s" "nxt (?ss ! nat p') ch \<noteq> None"
      by simp_all
    let ?k = "nat p'"
    have Kk: "len (?ss ! ?k) = K" using False by (simp add: K_def lenp_def)
    have Mk: "M ! ?k = ?ss ! ?k" using p(2) Kk by (simp add: M_def nth_mark)
    from p(4) obtain qi where e: "nxt (?ss ! ?k) ch = Some qi" by auto
    note ed = sam_edge[OF inv p(2) e]
    let ?q = "nat qi"
    have qi: "0 \<le> qi" "int ?q = qi" using ed(1) by simp_all
    have g3: "py_get (M @ [X0]) p' = Inr (?ss ! ?k)"
      using p(1,2) Mk by (simp add: py_get_valid lM nth_append)
    have g4: "py_get (M @ [X0]) qi = Inr (M ! ?q)"
      using qi(1) ed(2) by (simp add: py_get_valid lM nth_append)
    show ?thesis
    proof (cases "len (?ss ! ?k) + 1 = len (?ss ! ?q)")
      case True
      then have c: "len (?ss ! ?k) + 1 = len (M ! ?q)" using Mlen(1)[OF ed(2)] by simp
      have "extend A ch = Some (Inr \<lparr>states = M @ [\<lparr>nxt = Map.empty, link = qi, len = len (?ss ! nat ?lst) + 1\<rparr>],
          last_st = int ?n\<rparr>)"
        unfolding extend_def Let_def
        by (simp only: g1 g2 w' g3 e g4 c sl False sum.case prod.case option.case if_True if_False simp_thms)
      moreover have "sam_inv (s @ [ch])
          (M @ [\<lparr>nxt = Map.empty, link = int ?q, len = len (?ss ! nat ?lst) + 1\<rparr>]) (int ?n)
          (rep(?n := s @ [ch]))"
        unfolding M_def
      proof (rule sam_inv_plain[OF inv F])
        show "?q < ?n" using ed(2) .
        show "len (?ss ! ?q) = K + 1" using True Kk by simp
        have "length (rep ?k @ [ch]) = length (rep ?q)"
          using True sam_invD(7)[OF inv p(2)] sam_invD(7)[OF inv ed(2)] by simp
        then have "rep ?q = rep ?k @ [ch]" using ed(4) by (auto simp: suffix_def)
        then show "suffix (rep ?q) (s @ [ch])" using p(3) by simp
      qed
      ultimately show ?thesis using qi(2) by (auto simp: lM)
    next
      case split: False
      then have c: "len (?ss ! ?k) + 1 \<noteq> len (M ! ?q)" using Mlen(1)[OF ed(2)] by simp
      have q2: "len (?ss ! ?q) \<noteq> K + 1" using split Kk by simp
      define C :: "'a state" where
        "C = \<lparr>nxt = nxt (M ! ?q), link = link (?ss ! ?q), len = K + 1\<rparr>"
      have m2: "mark2 s rep ch (int ?n) (int ?n + 1) (lenp ?ss p') K ?ss = M"
        by (simp add: M_def K_def mark2_same)
      have r1: "p' = - 1 \<or> (0 \<le> p' \<and> nat p' < ?n \<and> suffix (rep (nat p')) s)" using p by simp
      have r2: "lenp ?ss p' \<le> K" by (simp add: K_def)
      have r3: "\<forall>i<?n. suffix (rep i) s \<and> lenp ?ss p' < len (?ss ! i) \<and> len (?ss ! i) \<le> K
          \<longrightarrow> nxt (?ss ! i) ch = Some qi"
        unfolding K_def by auto
      from extend_redirect_mark2[OF inv r1 r2 r3, of "int ?n" "int ?n + 1" "[X0, C]"]
      obtain p2 where rd: "extend_redirect (M @ [X0, C]) ch qi (int ?n + 1) p'
            = Some (Inr (mark2 s rep ch (int ?n) (int ?n + 1) (lenp ?ss p2) K ?ss @ [X0, C], p2))"
        and p2: "p2 = - 1 \<or> (0 \<le> p2 \<and> nat p2 < ?n \<and> suffix (rep (nat p2)) s \<and>
             nxt (?ss ! nat p2) ch \<noteq> Some qi)"
        and p2K: "lenp ?ss p2 \<le> K"
        and fin: "\<forall>i<?n. suffix (rep i) s \<and> lenp ?ss p2 < len (?ss ! i) \<and> len (?ss ! i) \<le> K
            \<longrightarrow> nxt (?ss ! i) ch = Some qi"
        unfolding m2 by blast
      define J where "J = lenp ?ss p2"
      define M2 where "M2 = mark2 s rep ch (int ?n) (int ?n + 1) J K ?ss"
      define cl where "cl = int ?n + 1"
      have lM2: "length M2 = ?n" by (simp add: M2_def)
      have e1: "int (length (M @ [X0])) = cl" by (simp add: lM cl_def)
      have rd': "extend_redirect
              ((M @ [X0]) @ [\<lparr>nxt = nxt ((M @ [X0]) ! nat qi), link = link ((M @ [X0]) ! nat qi),
                   len = len ((M @ [X0]) ! nat p') + 1\<rparr>])
              ch qi (int (length (M @ [X0]))) p' = Some (Inr (M2 @ [X0, C], p2))"
      proof -
        have e2: "(M @ [X0]) @ [c] = M @ [X0, c]" for c by simp
        have e3: "(M @ [X0]) ! nat qi = M ! ?q" using ed(2) by (simp add: nth_append lM)
        have e4: "(M @ [X0]) ! nat p' = ?ss ! ?k" using p(2) Mk by (simp add: nth_append lM)
        show ?thesis
          unfolding e1 e2 e3 e4 Mlen(2)[OF ed(2)] Kk M2_def J_def C_def cl_def
          using rd[unfolded C_def] .
      qed
      have "extend_clone (M @ [X0]) ch (int ?n) p' qi =
        Some (Inr ((M2 @ [X0, C])[?q := ((M2 @ [X0, C]) ! ?q)\<lparr>link := int (length (M @ [X0]))\<rparr>,
                    nat (int ?n) := ((M2 @ [X0, C])[?q := ((M2 @ [X0, C]) ! ?q)\<lparr>link := int (length (M @ [X0]))\<rparr>] ! nat (int ?n))
                                 \<lparr>link := int (length (M @ [X0]))\<rparr>]))"
        by (rule extend_clone_eval[OF p(1) _ qi(1) _ _ _ rd']) (use p(2) ed(2) in \<open>simp_all add: lM\<close>)
      also have "(M2 @ [X0, C])[?q := ((M2 @ [X0, C]) ! ?q)\<lparr>link := int (length (M @ [X0]))\<rparr>,
                    nat (int ?n) := ((M2 @ [X0, C])[?q := ((M2 @ [X0, C]) ! ?q)\<lparr>link := int (length (M @ [X0]))\<rparr>] ! nat (int ?n))
                                 \<lparr>link := int (length (M @ [X0]))\<rparr>]
          = M2[?q := (M2 ! ?q)\<lparr>link := cl\<rparr>]
              @ [\<lparr>nxt = Map.empty, link = cl, len = len (?ss ! nat ?lst) + 1\<rparr>, C]"
        unfolding e1 using ed(2) by (simp add: lM2[symmetric] nth_append list_update_append X0_def)
      finally have ec: "extend_clone (M @ [X0]) ch (int ?n) p' qi =
        Some (Inr (M2[?q := (M2 ! ?q)\<lparr>link := int ?n + 1\<rparr>]
              @ [\<lparr>nxt = Map.empty, link = int ?n + 1, len = len (?ss ! nat ?lst) + 1\<rparr>, C]))"
        unfolding cl_def .
      have "extend A ch = Some (Inr \<lparr>states = M2[?q := (M2 ! ?q)\<lparr>link := int ?n + 1\<rparr>]
              @ [\<lparr>nxt = Map.empty, link = int ?n + 1, len = len (?ss ! nat ?lst) + 1\<rparr>, C],
          last_st = int ?n\<rparr>)"
        unfolding extend_def Let_def
        by (simp only: g1 g2 w' g3 e g4 c ec False sum.case prod.case option.case if_True if_False simp_thms)
      moreover have "sam_inv (s @ [ch])
          (M2[?q := (M2 ! ?q)\<lparr>link := int ?n + 1\<rparr>]
              @ [\<lparr>nxt = Map.empty, link = int ?n + 1, len = len (?ss ! nat ?lst) + 1\<rparr>, C]) (int ?n)
          (rep(?n := s @ [ch], Suc ?n := rep ?k @ [ch]))"
        unfolding M2_def C_def M_def
      proof (rule sam_inv_split[OF inv F p(2,3) Kk])
        show "nxt (?ss ! ?k) ch = Some (int ?q)" using e qi(2) by simp
        show "len (?ss ! ?q) \<noteq> K + 1" using q2 .
        fix i assume i: "i < ?n" "suffix (rep i) s" "len (?ss ! i) \<le> K"
        show "nxt (?ss ! i) ch = Some (int ?q) \<longleftrightarrow> J < len (?ss ! i)"
          unfolding J_def qi(2)
          by (rule redirect_exit[OF inv p(2,3) Kk e q2 p2 p2K fin i])
      qed
      moreover have "2 \<le> length s"
      proof -
        have "K + 1 < len (?ss ! ?q)" using ed(5) Kk q2 by simp
        moreover have "0 \<le> K" using Kk sam_len_nonneg(1)[OF inv p(2)] by simp
        moreover have "len (?ss ! ?q) \<le> int (length s)"
          using sam_invD(7)[OF inv ed(2)] sublist_length_le[OF sam_invD(6)[OF inv ed(2)]] by simp
        ultimately show ?thesis by simp
      qed
      ultimately show ?thesis by (auto simp: lM2)
    qed
  qed
qed

lemma State_simps [simp]: "nxt State = Map.empty" "link State = - 1" "len State = 0"
  by (simp_all add: State_def)

lemma sam_inv_init: "sam_inv [] [State] 0 (\<lambda>_. [])"
proof -
  have w: "walk [State] 0 w = (if w = [] then Some 0 else None)" for w :: "'a list"
    by (cases w) simp_all
  show ?thesis
    unfolding sam_inv_def wf_states_def
    by (auto simp: w llen_def)
qed

text \<open>
  The construction returns for every string, and the automaton it builds satisfies the
  invariant. The number of states grows by one per symbol for the first two symbols and by
  at most two per symbol afterwards.
\<close>

lemma SuffixAutomaton_inv:
  "\<exists>A rep. SuffixAutomaton s = Some (Inr A) \<and> sam_inv s (states A) (last_st A) rep
     \<and> length (states A) \<le> (if length s \<le> 1 then length s + 1 else 2 * length s - 1)"
proof (induction s rule: rev_induct)
  case Nil
  show ?case using sam_inv_init by (auto simp: SuffixAutomaton_Nil)
next
  case (snoc ch s)
  then obtain A rep where A: "SuffixAutomaton s = Some (Inr A)"
    and inv: "sam_inv s (states A) (last_st A) rep"
    and n: "length (states A) \<le> (if length s \<le> 1 then length s + 1 else 2 * length s - 1)"
    by blast
  from extend_step[OF inv, of ch] obtain A' rep' where A': "extend A ch = Some (Inr A')"
    and inv': "sam_inv (s @ [ch]) (states A') (last_st A') rep'"
    and n': "length (states A') = length (states A) + 1
         \<or> length (states A') = length (states A) + 2 \<and> 2 \<le> length s"
    by blast
  have "SuffixAutomaton (s @ [ch]) = Some (Inr A')" by (simp add: SuffixAutomaton_snoc A A')
  moreover have "length (states A') \<le>
      (if length (s @ [ch]) \<le> 1 then length (s @ [ch]) + 1 else 2 * length (s @ [ch]) - 1)"
  proof -
    consider "length s = 0" | "length s = 1" | "2 \<le> length s" by linarith
    then show ?thesis using n n' by cases auto
  qed
  ultimately show ?case using inv' by blast
qed

lemma accepts_walk:
  assumes wf: "wf_states ss"
  shows "v < length ss \<Longrightarrow> accepts ss (int v) w \<longleftrightarrow> walk ss v w \<noteq> None"
proof (induction w arbitrary: v)
  case Nil
  show ?case by simp
next
  case (Cons c w)
  have g: "py_get ss (int v) = Inr (ss ! v)" using Cons.prems by (simp add: py_get_valid)
  show ?case
  proof (cases "nxt (ss ! v) c")
    case None
    then show ?thesis by (simp add: g)
  next
    case (Some t)
    from wf_statesD(6,7)[OF wf Cons.prems Some] have t: "0 < t" "nat t < length ss" by simp_all
    have "accepts ss (int (nat t)) w \<longleftrightarrow> walk ss (nat t) w \<noteq> None" using Cons.IH[OF t(2)] .
    then show ?thesis using Some t(1) by (simp add: g)
  qed
qed

lemma sam_walk_len:
  assumes inv: "sam_inv s ss lst rep"
  shows "v < length ss \<Longrightarrow> walk ss v w = Some u \<Longrightarrow> len (ss ! v) + int (length w) \<le> len (ss ! u)"
proof (induction w arbitrary: v)
  case Nil
  then show ?case by simp
next
  case (Cons c w)
  from Cons.prems(2) obtain t where t: "nxt (ss ! v) c = Some t" and w: "walk ss (nat t) w = Some u"
    by (auto split: option.splits)
  note e = sam_edge[OF inv Cons.prems(1) t]
  from Cons.IH[OF e(2) w] e(5) show ?case by simp
qed

text \<open>
  The inner loop of \<open>longest_common_substring\<close>, started in the state \<open>v\<close> of the word \<open>y\<close>
  with \<open>l = length y\<close>: it returns; either it ends with \<open>v = -1\<close>, and then no suffix of \<open>y\<close>
  followed by \<open>ch\<close> is a substring of \<open>s\<close>; or it ends in the state of the longest suffix
  \<open>z\<close> of \<open>y\<close> such that \<open>z @ [ch]\<close> is a substring of \<open>s\<close>, with \<open>l = length z\<close>.
\<close>

lemma lcs_while_spec:
  assumes inv: "sam_inv s ss lst rep"
  shows "v < length ss \<Longrightarrow> walk ss 0 y = Some v \<Longrightarrow>
     \<exists>v' l'. lcs_while ss ch (int v) (int (length y)) = Some (Inr (ss, v', l')) \<and>
        (v' = - 1 \<and> (\<forall>z. suffix z y \<longrightarrow> \<not> sublist (z @ [ch]) s) \<or>
         0 \<le> v' \<and> nat v' < length ss \<and> nxt (ss ! nat v') ch \<noteq> None \<and>
           (\<exists>z. suffix z y \<and> walk ss 0 z = Some (nat v') \<and> l' = int (length z) \<and>
              (\<forall>z'. suffix z' y \<and> sublist (z' @ [ch]) s \<longrightarrow> length z' \<le> length z)))"
proof (induction "length y" arbitrary: y v rule: less_induct)
  case less
  note v = less.prems(1) and wy = less.prems(2)
  have g: "py_get ss (int v) = Inr (ss ! v)" using v by (simp add: py_get_valid)
  show ?case
  proof (cases "nxt (ss ! v) ch = None")
    case False
    have "lcs_while ss ch (int v) (int (length y)) = Some (Inr (ss, int v, int (length y)))"
      using False g by (subst lcs_while.simps) simp
    moreover have "\<forall>z'. suffix z' y \<and> sublist (z' @ [ch]) s \<longrightarrow> length z' \<le> length y"
      using suffix_length_le by blast
    ultimately show ?thesis using v wy False by force
  next
    case True
    have inv_v: "\<not> sublist (z @ [ch]) s" if "suffix z y" "llen ss v < int (length z)" for z
    proof -
      have "suffix z (rep v)" using that(1) sam_walk_suffix(1)[OF inv wy] suffix_order.trans by blast
      then have "walk ss 0 z = Some v" using sam_invD(8)[OF inv v, of z] that(2) by simp
      then show ?thesis using sam_snoc_sublist[OF inv, of z v ch] True by simp
    qed
    show ?thesis
    proof (cases "v = 0")
      case v0: True
      then have l: "link (ss ! v) = - 1" using wf_statesD(4)[OF sam_invD(1)[OF inv]] by simp
      have "lcs_while ss ch (int v) (int (length y)) = lcs_while ss ch (- 1) (int (length y))"
        using True g l by (subst lcs_while.simps) simp
      also have "\<dots> = Some (Inr (ss, - 1, int (length y)))"
        by (subst lcs_while.simps) simp
      finally have "lcs_while ss ch (int v) (int (length y)) = Some (Inr (ss, - 1, int (length y)))" .
      moreover have "\<forall>z. suffix z y \<longrightarrow> \<not> sublist (z @ [ch]) s"
        using inv_v sam_rep0(2)[OF inv] v0 by simp
      ultimately show ?thesis by blast
    next
      case False
      then have vpos: "0 < v" by simp
      let ?u = "nat (link (ss ! v))"
      note lv = sam_link_valid[OF inv v vpos]
      have gu: "py_get ss (link (ss ! v)) = Inr (ss ! ?u)" using lv(1,2) by (rule py_get_valid)
      have lu: "len (ss ! ?u) = int (length (rep ?u))" using sam_invD(7)[OF inv lv(2)] .
      have step: "lcs_while ss ch (int v) (int (length y))
          = lcs_while ss ch (int ?u) (int (length (rep ?u)))"
        using True g lv(1,3) gu lu by (subst lcs_while.simps) simp
      have short: "length (rep ?u) < length y"
        using sam_walk_suffix(2)[OF inv wy] lv(4) lu by simp
      have su: "suffix (rep ?u) y"
        using short
        by (intro suffix_length_suffix[OF sam_invD(9)[OF inv v vpos] sam_walk_suffix(1)[OF inv wy]]) simp
      from less.hyps[OF short lv(2) sam_walk_rep[OF inv lv(2)]]
      obtain v' l' where r: "lcs_while ss ch (int ?u) (int (length (rep ?u))) = Some (Inr (ss, v', l'))"
        and alt: "v' = - 1 \<and> (\<forall>z. suffix z (rep ?u) \<longrightarrow> \<not> sublist (z @ [ch]) s) \<or>
         0 \<le> v' \<and> nat v' < length ss \<and> nxt (ss ! nat v') ch \<noteq> None \<and>
           (\<exists>z. suffix z (rep ?u) \<and> walk ss 0 z = Some (nat v') \<and> l' = int (length z) \<and>
              (\<forall>z'. suffix z' (rep ?u) \<and> sublist (z' @ [ch]) s \<longrightarrow> length z' \<le> length z))"
        by blast
      have down: "suffix z (rep ?u)" if "suffix z y" "sublist (z @ [ch]) s" for z
      proof -
        have "\<not> llen ss v < int (length z)" using inv_v that by blast
        then have "length z \<le> length (rep ?u)" using lv(4) lu by simp
        then show ?thesis by (rule suffix_length_suffix[OF that(1) su])
      qed
      from alt show ?thesis
      proof
        assume a: "v' = - 1 \<and> (\<forall>z. suffix z (rep ?u) \<longrightarrow> \<not> sublist (z @ [ch]) s)"
        then have "\<forall>z. suffix z y \<longrightarrow> \<not> sublist (z @ [ch]) s" using down by blast
        then show ?thesis using step r a by auto
      next
        assume b: "0 \<le> v' \<and> nat v' < length ss \<and> nxt (ss ! nat v') ch \<noteq> None \<and>
           (\<exists>z. suffix z (rep ?u) \<and> walk ss 0 z = Some (nat v') \<and> l' = int (length z) \<and>
              (\<forall>z'. suffix z' (rep ?u) \<and> sublist (z' @ [ch]) s \<longrightarrow> length z' \<le> length z))"
        then obtain z where z: "suffix z (rep ?u)" "walk ss 0 z = Some (nat v')" "l' = int (length z)"
          and zmax: "\<forall>z'. suffix z' (rep ?u) \<and> sublist (z' @ [ch]) s \<longrightarrow> length z' \<le> length z"
          by blast
        have "suffix z y" using z(1) su suffix_order.trans by blast
        moreover have "\<forall>z'. suffix z' y \<and> sublist (z' @ [ch]) s \<longrightarrow> length z' \<le> length z"
          using zmax down by blast
        ultimately show ?thesis using step r b z(2,3) by auto
      qed
    qed
  qed
qed

lemma lcs_brute_eqI:
  assumes "sublist w s" "sublist w t" "length w = r"
    and "\<And>w'. sublist w' s \<Longrightarrow> sublist w' t \<Longrightarrow> length w' \<le> r"
  shows "lcs_brute s t = r"
  unfolding lcs_brute_def
proof (rule Max_eqI)
  show "finite (set (map length (filter (\<lambda>w. sublist w s) (sublists t))))" by (rule finite_set)
  show "r \<in> set (map length (filter (\<lambda>w. sublist w s) (sublists t)))"
    using assms(1,2,3) by force
  fix y assume "y \<in> set (map length (filter (\<lambda>w. sublist w s) (sublists t)))"
  then show "y \<le> r" using assms(4) by auto
qed

text \<open>
  The outer loop of \<open>longest_common_substring\<close>. \<open>x\<close> is the part of the query read so far,
  \<open>u\<close> its longest suffix that is a substring of \<open>s\<close>, \<open>v\<close> the state of \<open>u\<close>, \<open>l\<close> its
  length, and \<open>best\<close> the greatest length of a common substring of \<open>s\<close> and \<open>x\<close>.
\<close>

lemma lcs_for_spec:
  assumes inv: "sam_inv s ss lst rep"
  shows "v < length ss \<Longrightarrow> walk ss 0 u = Some v \<Longrightarrow> suffix u x \<Longrightarrow>
     (\<forall>u'. suffix u' x \<and> sublist u' s \<longrightarrow> length u' \<le> length u) \<Longrightarrow>
     sublist w s \<Longrightarrow> sublist w x \<Longrightarrow>
     (\<forall>w'. sublist w' s \<and> sublist w' x \<longrightarrow> length w' \<le> length w) \<Longrightarrow>
     \<exists>w2. lcs_for ss t (int v) (int (length u)) (int (length w)) = Some (Inr (ss, int (length w2))) \<and>
        sublist w2 s \<and> sublist w2 (x @ t) \<and>
        (\<forall>w'. sublist w' s \<and> sublist w' (x @ t) \<longrightarrow> length w' \<le> length w2)"
proof (induction t arbitrary: v u x w)
  case Nil
  then show ?case by auto
next
  case (Cons c t)
  note v = Cons.prems(1) and wu = Cons.prems(2) and ux = Cons.prems(3) and umax = Cons.prems(4)
    and ws = Cons.prems(5) and wx = Cons.prems(6) and wmax = Cons.prems(7)
  have us: "sublist u s" using sam_walk_sublist[OF inv, of u] wu by simp
  text \<open>A suffix of \<open>x @ [c]\<close> that is a substring of \<open>s\<close> is empty or a suffix of \<open>u\<close> followed by \<open>c\<close>.\<close>
  have shape: "u' = [] \<or> (\<exists>z. u' = z @ [c] \<and> suffix z u \<and> sublist (z @ [c]) s)"
    if "suffix u' (x @ [c])" "sublist u' s" for u'
  proof (cases u' rule: rev_cases)
    case Nil
    then show ?thesis by simp
  next
    case (snoc z a)
    with that(1) have a: "a = c" and zx: "suffix z x" by simp_all
    have "sublist (z @ [a]) s" using that(2) snoc by simp
    then have "sublist z s" by (rule sublist_snoc_left)
    then have "length z \<le> length u" using umax zx by blast
    then have "suffix z u" by (rule suffix_length_suffix[OF zx ux])
    then show ?thesis using snoc a that(2) by simp
  qed
  have wsub: "sublist w (x @ [c])" using wx by (simp add: sublist_snoc)
  from lcs_while_spec[OF inv v wu, of c]
  obtain v' l' where r: "lcs_while ss c (int v) (int (length u)) = Some (Inr (ss, v', l'))"
    and alt: "v' = - 1 \<and> (\<forall>z. suffix z u \<longrightarrow> \<not> sublist (z @ [c]) s) \<or>
         0 \<le> v' \<and> nat v' < length ss \<and> nxt (ss ! nat v') c \<noteq> None \<and>
           (\<exists>z. suffix z u \<and> walk ss 0 z = Some (nat v') \<and> l' = int (length z) \<and>
              (\<forall>z'. suffix z' u \<and> sublist (z' @ [c]) s \<longrightarrow> length z' \<le> length z))"
    by blast
  from alt show ?case
  proof
    assume a: "v' = - 1 \<and> (\<forall>z. suffix z u \<longrightarrow> \<not> sublist (z @ [c]) s)"
    have step: "lcs_for ss (c # t) (int v) (int (length u)) (int (length w))
        = lcs_for ss t (int 0) (int (length ([]::'a list))) (int (length w))"
      using r a by simp
    have n0: "0 < length ss" using wf_statesD(2)[OF sam_invD(1)[OF inv]] .
    have e: "u' = []" if "suffix u' (x @ [c])" "sublist u' s" for u'
      using shape[OF that] a by blast
    have umax': "\<forall>u'. suffix u' (x @ [c]) \<and> sublist u' s \<longrightarrow> length u' \<le> length ([]::'a list)"
      using e by auto
    have wmax': "\<forall>w'. sublist w' s \<and> sublist w' (x @ [c]) \<longrightarrow> length w' \<le> length w"
    proof (intro allI impI)
      fix w' assume h: "sublist w' s \<and> sublist w' (x @ [c])"
      then have "suffix w' (x @ [c]) \<or> sublist w' x" by (simp add: sublist_snoc)
      then show "length w' \<le> length w"
      proof
        assume "suffix w' (x @ [c])"
        then have "w' = []" using e h by blast
        then show ?thesis by simp
      next
        assume "sublist w' x"
        then show ?thesis using wmax h by blast
      qed
    qed
    from Cons.IH[OF n0 _ _ umax' ws wsub wmax']
    have "\<exists>w2. lcs_for ss t (int 0) (int (length ([]::'a list))) (int (length w)) = Some (Inr (ss, int (length w2))) \<and>
        sublist w2 s \<and> sublist w2 ((x @ [c]) @ t) \<and>
        (\<forall>w'. sublist w' s \<and> sublist w' ((x @ [c]) @ t) \<longrightarrow> length w' \<le> length w2)"
      by simp
    then show ?thesis unfolding step by simp
  next
    assume b: "0 \<le> v' \<and> nat v' < length ss \<and> nxt (ss ! nat v') c \<noteq> None \<and>
           (\<exists>z. suffix z u \<and> walk ss 0 z = Some (nat v') \<and> l' = int (length z) \<and>
              (\<forall>z'. suffix z' u \<and> sublist (z' @ [c]) s \<longrightarrow> length z' \<le> length z))"
    then obtain z v2 where v': "0 \<le> v'" "nat v' < length ss" and e: "nxt (ss ! nat v') c = Some v2"
      and z: "suffix z u" "walk ss 0 z = Some (nat v')" "l' = int (length z)"
      and zmax: "\<forall>z'. suffix z' u \<and> sublist (z' @ [c]) s \<longrightarrow> length z' \<le> length z"
      by blast
    have n1: "v' \<noteq> - 1" using v'(1) by simp
    have g: "py_get ss v' = Inr (ss ! nat v')" using v' by (rule py_get_valid)
    from wf_statesD(6,7)[OF sam_invD(1)[OF inv] v'(2) e] have v2: "0 < v2" "nat v2 < length ss" by simp_all
    let ?u' = "z @ [c]"
    have wz: "walk ss 0 ?u' = Some (nat v2)" using z(2) e by (simp add: walk_snoc)
    have zs: "sublist ?u' s" using sam_walk_sublist[OF inv, of ?u'] wz by simp
    have zx: "suffix ?u' (x @ [c])" using z(1) ux suffix_order.trans by auto
    have umax': "\<forall>u'. suffix u' (x @ [c]) \<and> sublist u' s \<longrightarrow> length u' \<le> length ?u'"
    proof (intro allI impI)
      fix u' assume h: "suffix u' (x @ [c]) \<and> sublist u' s"
      from shape[of u'] h consider "u' = []" | z' where "u' = z' @ [c]" "suffix z' u" "sublist (z' @ [c]) s"
        by blast
      then show "length u' \<le> length ?u'"
      proof cases
        case 1
        then show ?thesis by simp
      next
        case 2
        then show ?thesis using zmax by auto
      qed
    qed
    let ?w = "if length w < length ?u' then ?u' else w"
    have best: "(if int (length w) < l' + 1 then l' + 1 else int (length w)) = int (length ?w)"
      using z(3) by simp
    have step: "lcs_for ss (c # t) (int v) (int (length u)) (int (length w))
        = lcs_for ss t (int (nat v2)) (int (length ?u')) (int (length ?w))"
      using r n1 g e v2(1) z(3) by (simp add: Let_def add.commute)
    have ws': "sublist ?w s" using ws zs by simp
    have wx': "sublist ?w (x @ [c])" using wsub zx by (simp add: suffix_imp_sublist)
    have wmax': "\<forall>w'. sublist w' s \<and> sublist w' (x @ [c]) \<longrightarrow> length w' \<le> length ?w"
    proof (intro allI impI)
      fix w' assume h: "sublist w' s \<and> sublist w' (x @ [c])"
      then have "suffix w' (x @ [c]) \<or> sublist w' x" by (simp add: sublist_snoc)
      then show "length w' \<le> length ?w"
      proof
        assume "suffix w' (x @ [c])"
        then have "length w' \<le> length ?u'" using umax' h by blast
        then show ?thesis by simp
      next
        assume "sublist w' x"
        then have "length w' \<le> length w" using wmax h by blast
        then show ?thesis by simp
      qed
    qed
    from Cons.IH[OF v2(2) wz zx umax' ws' wx' wmax']
    have "\<exists>w2. lcs_for ss t (int (nat v2)) (int (length ?u')) (int (length ?w)) = Some (Inr (ss, int (length w2))) \<and>
        sublist w2 s \<and> sublist w2 ((x @ [c]) @ t) \<and>
        (\<forall>w'. sublist w' s \<and> sublist w' ((x @ [c]) @ t) \<longrightarrow> length w' \<le> length w2)" .
    then show ?thesis unfolding step by simp
  qed
qed

text \<open>\<open>longest_common_substring\<close> on an automaton that satisfies the invariant.\<close>

lemma lcs_spec:
  assumes inv: "sam_inv s (states A) (last_st A) rep"
  shows "\<exists>w. longest_common_substring A t = Some (Inr (A, int (length w))) \<and>
     sublist w s \<and> sublist w t \<and> (\<forall>w'. sublist w' s \<and> sublist w' t \<longrightarrow> length w' \<le> length w)"
proof -
  have n0: "0 < length (states A)" using wf_statesD(2)[OF sam_invD(1)[OF inv]] .
  from lcs_for_spec[OF inv n0, of "[]" "[]" "[]" t]
  obtain w where "lcs_for (states A) t 0 0 0 = Some (Inr (states A, int (length w)))"
    and "sublist w s" "sublist w t" "\<forall>w'. sublist w' s \<and> sublist w' t \<longrightarrow> length w' \<le> length w"
    by auto
  then show ?thesis by (auto simp: longest_common_substring_def)
qed

lemma extend_frame:
  assumes "extend A ch = Some (Inr A')"
  shows "length (states A') = length (states A) + (if split_case A ch then 2 else 1)"
    and "last_st A' = int (length (states A))"
    and "map len (take (length (states A)) (states A')) = map len (states A)"
proof -
  let ?n = "length (states A)"
  let ?cur = "int ?n"
  let ?ss1 = "states A @ [State]"
  have ix: "py_index ?ss1 ?cur = Inr ?n" by (simp add: py_index_def Let_def)
  from assms obtain sl ss2 ss3 p where
    a1: "py_get ?ss1 (last_st A) = Inr sl" and
    a2: "set_len ?ss1 ?cur (len sl + 1) = Inr ss2" and
    a3: "extend_walk ss2 ch ?cur (last_st A) = Inr (ss3, p)"
    by (auto simp: extend_def Let_def split: sum.splits prod.splits)
  note f2 = set_len_frame[OF a2 ix] and f3 = extend_walk_frame[OF a3]
  have l3: "length ss3 = ?n + 1" using f2(1) f3(1) by simp
  have k3: "len (ss3 ! i) = len (states A ! i)" if "i < ?n" for i
    using that f2(2)[of i] f3(2)[of i] by (simp add: nth_append)
  have "length (states A') = ?n + (if split_case A ch then 2 else 1) \<and> last_st A' = ?cur \<and>
    (\<forall>i<?n. len (states A' ! i) = len (states A ! i))"
  proof (cases "p = - 1")
    case True
    from assms a1 a2 a3 True obtain ss4 where
      s4: "set_link ss3 ?cur 0 = Inr ss4" and A': "A' = \<lparr>states = ss4, last_st = ?cur\<rparr>"
      by (auto simp: extend_def Let_def split: sum.splits)
    have ns: "\<not> split_case A ch" using a1 a2 a3 True by (simp add: split_case_def Let_def)
    note f4 = set_link_frame[OF s4]
    have "length ss4 = ?n + 1" using l3 f4(1) by simp
    moreover have "len (ss4 ! i) = len (states A ! i)" if "i < ?n" for i
      using that l3 k3[of i] f4(2)[of i] by simp
    ultimately show ?thesis using A' ns by simp
  next
    case False
    from assms a1 a2 a3 False obtain sp q sq where
      b1: "py_get ss3 p = Inr sp" and b2: "nxt sp ch = Some q" and b3: "py_get ss3 q = Inr sq"
      by (auto simp: extend_def Let_def split: sum.splits option.splits)
    show ?thesis
    proof (cases "len sp + 1 = len sq")
      case True
      from assms a1 a2 a3 False b1 b2 b3 True obtain ss4 where
        s4: "set_link ss3 ?cur q = Inr ss4" and A': "A' = \<lparr>states = ss4, last_st = ?cur\<rparr>"
        by (auto simp: extend_def Let_def split: sum.splits)
      have ns: "\<not> split_case A ch"
        using a1 a2 a3 False b1 b2 b3 True by (simp add: split_case_def Let_def)
      note f4 = set_link_frame[OF s4]
      have "length ss4 = ?n + 1" using l3 f4(1) by simp
      moreover have "len (ss4 ! i) = len (states A ! i)" if "i < ?n" for i
        using that l3 k3[of i] f4(2)[of i] by simp
      ultimately show ?thesis using A' ns by simp
    next
      case neq: False
      from assms a1 a2 a3 False b1 b2 b3 neq obtain ss4 where
        s4: "extend_clone ss3 ch ?cur p q = Some (Inr ss4)"
        and A': "A' = \<lparr>states = ss4, last_st = ?cur\<rparr>"
        by (auto simp: extend_def Let_def split: sum.splits option.splits)
      have sp: "split_case A ch"
        using a1 a2 a3 False b1 b2 b3 neq by (simp add: split_case_def Let_def)
      note f4 = extend_clone_len[OF s4]
      have "length ss4 = ?n + 2" using l3 f4(1) by simp
      moreover have "len (ss4 ! i) = len (states A ! i)" if "i < ?n" for i
        using that l3 k3[of i] f4(2)[of i] by simp
      ultimately show ?thesis using A' sp by simp
    qed
  qed
  then have L: "length (states A') = ?n + (if split_case A ch then 2 else 1)"
    and S: "last_st A' = ?cur"
    and K: "\<forall>i<?n. len (states A' ! i) = len (states A ! i)"
    by blast+
  show "length (states A') = length (states A) + (if split_case A ch then 2 else 1)"
    by (rule L)
  show "last_st A' = int (length (states A))" by (rule S)
  have le: "?n \<le> length (states A')" by (simp only: L le_add1)
  show "map len (take (length (states A)) (states A')) = map len (states A)"
    using le K by (auto intro!: nth_equalityI)
qed

section \<open>The claims\<close>

text \<open>
  C7. On the automaton built from any string \<open>s\<close>, a call of \<open>extend\<close> with any symbol
  returns. It appends two states in the split case (the first loop stops at a state \<open>p\<close>
  other than \<open>-1\<close> whose transition on the symbol leads to a state \<open>q\<close> with
  \<open>states[q].len \<noteq> states[p].len + 1\<close>: \<open>cur\<close> and \<open>clone\<close>) and one state (\<open>cur\<close>) in every
  other case; \<open>cur\<close> becomes \<open>last\<close>; no state is removed, and the \<open>len\<close> field of every state
  that was there before is as it was, so on those states only \<open>next\<close> and \<open>link\<close> can
  differ.
\<close>

theorem extend_appends_and_keeps_len:
  "\<exists>A A'. SuffixAutomaton s = Some (Inr A) \<and> extend A ch = Some (Inr A') \<and>
     length (states A') = length (states A) + (if split_case A ch then 2 else 1) \<and>
     last_st A' = int (length (states A)) \<and>
     map len (take (length (states A)) (states A')) = map len (states A)"
proof -
  from SuffixAutomaton_inv[of s] obtain A rep where A: "SuffixAutomaton s = Some (Inr A)"
    and inv: "sam_inv s (states A) (last_st A) rep" by blast
  from extend_step[OF inv, of ch] obtain A' where A': "extend A ch = Some (Inr A')" by blast
  show ?thesis using A A' extend_frame[OF A'] by blast
qed

theorem extend_appends_and_keeps_len_witness:
  "\<exists>A A' B'. SuffixAutomaton ''ab'' = Some (Inr A) \<and> length (states A) = 3 \<and>
     extend A (CHR ''b'') = Some (Inr A') \<and> split_case A (CHR ''b'') \<and>
     length (states A') = 5 \<and> last_st A' = 3 \<and> map len (take 3 (states A')) = map len (states A) \<and>
     extend A (CHR ''a'') = Some (Inr B') \<and> \<not> split_case A (CHR ''a'') \<and>
     length (states B') = 4 \<and> last_st B' = 3 \<and> map len (take 3 (states B')) = map len (states A)"
proof -
  have "\<exists>A0. SuffixAutomaton ''ab'' = Some (Inr A0) \<and> length (states A0) = 3 \<and>
      split_case A0 (CHR ''b'') \<and> \<not> split_case A0 (CHR ''a'')"
    by (simp add: eval_defs split_case_def)
  then obtain A0 where A0: "SuffixAutomaton ''ab'' = Some (Inr A0)" "length (states A0) = 3"
    "split_case A0 (CHR ''b'')" "\<not> split_case A0 (CHR ''a'')" by blast
  from extend_appends_and_keeps_len[of "''ab''" "CHR ''b''"] obtain A A' where
    A: "SuffixAutomaton ''ab'' = Some (Inr A)" and e1: "extend A (CHR ''b'') = Some (Inr A')"
    and l1: "length (states A') = length (states A) + (if split_case A (CHR ''b'') then 2 else 1)"
    and m1: "last_st A' = int (length (states A))"
      "map len (take (length (states A)) (states A')) = map len (states A)"
    by blast
  from extend_appends_and_keeps_len[of "''ab''" "CHR ''a''"] obtain B B' where
    B: "SuffixAutomaton ''ab'' = Some (Inr B)" and e2: "extend B (CHR ''a'') = Some (Inr B')"
    and l2: "length (states B') = length (states B) + (if split_case B (CHR ''a'') then 2 else 1)"
    and m2: "last_st B' = int (length (states B))"
      "map len (take (length (states B)) (states B')) = map len (states B)"
    by blast
  have eqA: "A = A0" using A A0(1) by simp
  have eqB: "B = A0" using B A0(1) by simp
  have "length (states A') = 5" using l1 A0(2,3) unfolding eqA by simp
  moreover have "length (states B') = 4" using l2 A0(2,4) unfolding eqB by simp
  moreover have "last_st A' = 3" "last_st B' = 3"
    using m1(1) m2(1) A0(2) unfolding eqA eqB by simp_all
  moreover have "map len (take 3 (states A')) = map len (states A0)"
    "map len (take 3 (states B')) = map len (states A0)"
    using m1(2) m2(2) A0(2) unfolding eqA eqB by simp_all
  ultimately show ?thesis using A0 e1 e2 unfolding eqA eqB by blast
qed

text \<open>
  C8. Building from the empty string returns, with the one initial state (length \<open>0\<close>,
  link \<open>-1\<close>, no transition) and \<open>last = 0\<close>; on that automaton
  \<open>longest_common_substring\<close> returns \<open>0\<close> for every \<open>t\<close>.
\<close>

theorem empty_build:
  "SuffixAutomaton [] = Some (Inr \<lparr>states = [State], last_st = 0\<rparr>) \<and>
   longest_common_substring \<lparr>states = [State], last_st = 0\<rparr> t = Some (Inr (\<lparr>states = [State], last_st = 0\<rparr>, 0))"
  by (simp add: SuffixAutomaton_def longest_common_substring_def lcs_for_init)

text \<open>
  C10. \<open>longest_common_substring\<close> is a query: when it returns, the automaton (the list
  of states with all their fields, and \<open>last\<close>) is the one it was called on.
\<close>

theorem lcs_pure:
  "longest_common_substring A t = Some (Inr (A', r)) \<Longrightarrow> A' = A"
  by (auto simp: longest_common_substring_def split: option.splits sum.splits dest: lcs_for_states)

theorem lcs_pure_witness:
  "\<exists>A A'. SuffixAutomaton ''abacaba'' = Some (Inr A) \<and> 1 < length (states A) \<and>
     longest_common_substring A ''acabxab'' = Some (Inr (A', 4)) \<and> A' = A"
proof -
  have "\<exists>A0. SuffixAutomaton ''abacaba'' = Some (Inr A0) \<and> 1 < length (states A0) \<and>
      (\<exists>A'. longest_common_substring A0 ''acabxab'' = Some (Inr (A', 4)))"
    by (simp add: eval_defs)
  then obtain A A' where A: "SuffixAutomaton ''abacaba'' = Some (Inr A)" "1 < length (states A)"
    and h: "longest_common_substring A ''acabxab'' = Some (Inr (A', 4))" by blast
  show ?thesis using A h lcs_pure[OF h] by blast
qed

text \<open>
  C2. For every string \<open>s\<close> the construction returns, and on the automaton it builds a
  word can be walked from the initial state, finding a transition at every step, exactly
  when it is a substring of \<open>s\<close>.
\<close>

theorem walk_iff_substring:
  "\<exists>A. SuffixAutomaton s = Some (Inr A) \<and> (\<forall>w. accepts (states A) 0 w \<longleftrightarrow> sublist w s)"
proof -
  from SuffixAutomaton_inv[of s] obtain A rep where A: "SuffixAutomaton s = Some (Inr A)"
    and inv: "sam_inv s (states A) (last_st A) rep" by blast
  note wf = sam_invD(1)[OF inv]
  have "accepts (states A) 0 w \<longleftrightarrow> sublist w s" for w
    using accepts_walk[OF wf wf_statesD(2)[OF wf], of w] sam_walk_sublist[OF inv, of w] by simp
  then show ?thesis using A by blast
qed

text \<open>
  C3. For every string \<open>s\<close> (that is, after every sequence of calls of \<open>extend\<close> on the
  initial automaton) the construction returns, and in the automaton every state but the
  initial one has a link to a state of strictly smaller \<open>len\<close>.
\<close>

theorem link_len_decreases:
  "\<exists>A. SuffixAutomaton s = Some (Inr A) \<and>
     (\<forall>i. 0 < i \<and> i < length (states A) \<longrightarrow>
        (\<exists>sl. py_get (states A) (link (states A ! i)) = Inr sl \<and> len sl < len (states A ! i)))"
proof -
  from SuffixAutomaton_inv[of s] obtain A rep where A: "SuffixAutomaton s = Some (Inr A)"
    and inv: "sam_inv s (states A) (last_st A) rep" by blast
  have "\<exists>sl. py_get (states A) (link (states A ! i)) = Inr sl \<and> len sl < len (states A ! i)"
    if i: "0 < i" "i < length (states A)" for i
  proof -
    note lv = sam_link_valid[OF inv i(2,1)]
    have "py_get (states A) (link (states A ! i)) = Inr (states A ! nat (link (states A ! i)))"
      using lv(1,2) by (rule py_get_valid)
    then show ?thesis using sam_invD(10)[OF inv i(2,1)] by blast
  qed
  then show ?thesis using A by blast
qed

theorem link_len_decreases_witness:
  "\<exists>A. SuffixAutomaton ''abb'' = Some (Inr A) \<and> length (states A) = 5 \<and>
     (\<exists>sl. py_get (states A) (link (states A ! 2)) = Inr sl \<and> len sl < len (states A ! 2))"
proof -
  from link_len_decreases[of "''abb''"] obtain A where A: "SuffixAutomaton ''abb'' = Some (Inr A)"
    and P: "\<forall>i. 0 < i \<and> i < length (states A) \<longrightarrow>
        (\<exists>sl. py_get (states A) (link (states A ! i)) = Inr sl \<and> len sl < len (states A ! i))"
    by blast
  have l: "length (states A) = 5" using A by (auto simp: eval_defs)
  then have "0 < (2::nat) \<and> 2 < length (states A)" by simp
  with P have "\<exists>sl. py_get (states A) (link (states A ! 2)) = Inr sl \<and> len sl < len (states A ! 2)"
    by blast
  with A l show ?thesis by blast
qed

text \<open>
  C5. For every string \<open>s\<close> the construction returns, and in the automaton every
  transition leads to a state of strictly greater \<open>len\<close>; so no walk along at least one
  transition comes back to the state it started from.
\<close>

theorem transitions_increase_len:
  "\<exists>A. SuffixAutomaton s = Some (Inr A) \<and>
     (\<forall>i c t. i < length (states A) \<and> nxt (states A ! i) c = Some t \<longrightarrow>
        (\<exists>st. py_get (states A) t = Inr st \<and> len (states A ! i) < len st)) \<and>
     (\<forall>i w. i < length (states A) \<and> w \<noteq> [] \<longrightarrow> walk (states A) i w \<noteq> Some i)"
proof -
  from SuffixAutomaton_inv[of s] obtain A rep where A: "SuffixAutomaton s = Some (Inr A)"
    and inv: "sam_inv s (states A) (last_st A) rep" by blast
  have "\<exists>st. py_get (states A) t = Inr st \<and> len (states A ! i) < len st"
    if i: "i < length (states A)" "nxt (states A ! i) c = Some t" for i c t
  proof -
    note e = sam_edge[OF inv i]
    have "py_get (states A) t = Inr (states A ! nat t)" using e(1,2) by (simp add: py_get_valid)
    then show ?thesis using e(5) by blast
  qed
  moreover have "walk (states A) i w \<noteq> Some i" if i: "i < length (states A)" "w \<noteq> []" for i w
  proof
    assume "walk (states A) i w = Some i"
    from sam_walk_len[OF inv i(1) this] i(2) show False by simp
  qed
  ultimately show ?thesis using A by blast
qed

theorem transitions_increase_len_witness:
  "\<exists>A. SuffixAutomaton ''abb'' = Some (Inr A) \<and> length (states A) = 5 \<and>
     nxt (states A ! 1) (CHR ''b'') = Some 2 \<and>
     (\<exists>st. py_get (states A) 2 = Inr st \<and> len (states A ! 1) < len st) \<and>
     walk (states A) 1 ''b'' \<noteq> Some 1"
proof -
  from transitions_increase_len[of "''abb''"] obtain A where A: "SuffixAutomaton ''abb'' = Some (Inr A)"
    and P: "\<forall>i c t. i < length (states A) \<and> nxt (states A ! i) c = Some t \<longrightarrow>
        (\<exists>st. py_get (states A) t = Inr st \<and> len (states A ! i) < len st)"
    and Q: "\<forall>i w. i < length (states A) \<and> w \<noteq> [] \<longrightarrow> walk (states A) i w \<noteq> Some i"
    by blast
  have l: "length (states A) = 5" and e: "nxt (states A ! 1) (CHR ''b'') = Some 2"
    using A by (auto simp: eval_defs)
  have "\<exists>st. py_get (states A) 2 = Inr st \<and> len (states A ! 1) < len st"
    using P l e by force
  moreover have "walk (states A) 1 ''b'' \<noteq> Some 1" using Q l by force
  ultimately show ?thesis using A l e by blast
qed

text \<open>
  C6. For every string \<open>s\<close> the construction returns, and in the automaton the initial
  state, at index \<open>0\<close>, has \<open>len = 0\<close> and \<open>link = -1\<close>: no call of \<open>extend\<close> has changed
  either field.
\<close>

theorem initial_state_fixed:
  "\<exists>A. SuffixAutomaton s = Some (Inr A) \<and> py_get (states A) 0 = Inr (states A ! 0) \<and>
     len (states A ! 0) = 0 \<and> link (states A ! 0) = - 1"
proof -
  from SuffixAutomaton_inv[of s] obtain A rep where A: "SuffixAutomaton s = Some (Inr A)"
    and inv: "sam_inv s (states A) (last_st A) rep" by blast
  note wf = sam_invD(1)[OF inv]
  have "py_get (states A) 0 = Inr (states A ! 0)" using wf_statesD(2)[OF wf] by (simp add: py_get_valid)
  then show ?thesis using A wf_statesD(3,4)[OF wf] by blast
qed

text \<open>
  C9. For every string \<open>s\<close> the construction returns without raising; on the automaton it
  builds, \<open>extend\<close> returns without raising for every symbol and
  \<open>longest_common_substring\<close> returns without raising for every query. Every index the
  automaton stores is a position of the list of states (\<open>last\<close>, the link of every state but
  the initial one, the target of every transition), so no indexing leaves the list or
  counts from its end, and \<open>-1\<close> is stored only as the link of the initial state, which the
  loops test before they index.
\<close>

theorem total_no_error:
  "\<exists>A. SuffixAutomaton s = Some (Inr A) \<and>
     (\<forall>ch. \<exists>A'. extend A ch = Some (Inr A')) \<and>
     (\<forall>t. \<exists>r. longest_common_substring A t = Some (Inr (A, r))) \<and>
     wf_states (states A) \<and> 0 \<le> last_st A \<and> last_st A < int (length (states A))"
proof -
  from SuffixAutomaton_inv[of s] obtain A rep where A: "SuffixAutomaton s = Some (Inr A)"
    and inv: "sam_inv s (states A) (last_st A) rep" by blast
  have "\<exists>A'. extend A ch = Some (Inr A')" for ch using extend_step[OF inv, of ch] by blast
  moreover have "\<exists>r. longest_common_substring A t = Some (Inr (A, r))" for t
    using lcs_spec[OF inv, of t] by blast
  ultimately show ?thesis using A sam_invD(1,2,3)[OF inv] by blast
qed

theorem total_no_error_witness:
  "\<exists>A. SuffixAutomaton ''ab'' = Some (Inr A) \<and>
     (\<exists>A'. extend A (CHR ''b'') = Some (Inr A')) \<and>
     (\<exists>r. longest_common_substring A ''cab'' = Some (Inr (A, r))) \<and>
     length (states A) = 3 \<and> last_st A = 2 \<and>
     0 \<le> link (states A ! 1) \<and> link (states A ! 1) < int (length (states A)) \<and>
     nxt (states A ! 1) (CHR ''b'') = Some 2 \<and> (0::int) < 2 \<and> 2 < int (length (states A))"
proof -
  from total_no_error[of "''ab''"] obtain A where A: "SuffixAutomaton ''ab'' = Some (Inr A)"
    and e: "\<forall>ch. \<exists>A'. extend A ch = Some (Inr A')"
    and q: "\<forall>t. \<exists>r. longest_common_substring A t = Some (Inr (A, r))"
    and wf: "wf_states (states A)"
    by blast
  have l: "length (states A) = 3" "last_st A = 2" "nxt (states A ! 1) (CHR ''b'') = Some 2"
    using A by (auto simp: eval_defs)
  have "0 \<le> link (states A ! 1) \<and> link (states A ! 1) < int (length (states A))"
    using wf_statesD(5)[OF wf, of 1] l(1) by simp
  moreover have "(0::int) < 2 \<and> 2 < int (length (states A))"
    using wf_statesD(6)[OF wf _ l(3)] l(1) by simp
  ultimately show ?thesis using A e q l by blast
qed

text \<open>
  C1. For every \<open>s\<close> and \<open>t\<close>, the construction returns an automaton for \<open>s\<close> on which
  \<open>longest_common_substring t\<close> returns the value of the brute-force reference
  \<open>lcs_brute s t\<close>, which is the length of a common substring of \<open>s\<close> and \<open>t\<close> and bounds the
  length of every common substring.
\<close>

theorem lcs_correct:
  "\<exists>A. SuffixAutomaton s = Some (Inr A) \<and>
     longest_common_substring A t = Some (Inr (A, int (lcs_brute s t))) \<and>
     (\<exists>w. sublist w s \<and> sublist w t \<and> length w = lcs_brute s t) \<and>
     (\<forall>w. sublist w s \<and> sublist w t \<longrightarrow> length w \<le> lcs_brute s t)"
proof -
  from SuffixAutomaton_inv[of s] obtain A rep where A: "SuffixAutomaton s = Some (Inr A)"
    and inv: "sam_inv s (states A) (last_st A) rep" by blast
  from lcs_spec[OF inv, of t] obtain w
    where r: "longest_common_substring A t = Some (Inr (A, int (length w)))"
      and w: "sublist w s" "sublist w t"
      and wmax: "\<forall>w'. sublist w' s \<and> sublist w' t \<longrightarrow> length w' \<le> length w"
    by blast
  have b: "lcs_brute s t = length w"
    using wmax by (intro lcs_brute_eqI[OF w]) simp_all
  show ?thesis using A r w wmax unfolding b by blast
qed

theorem lcs_correct_witness:
  "\<exists>A. SuffixAutomaton ''banana'' = Some (Inr A) \<and>
     longest_common_substring A ''ananas'' = Some (Inr (A, 5)) \<and>
     lcs_brute ''banana'' ''ananas'' = 5 \<and>
     sublist ''anana'' ''banana'' \<and> sublist ''anana'' ''ananas'' \<and>
     length ''anana'' \<le> lcs_brute ''banana'' ''ananas''"
proof -
  have "\<exists>A0. SuffixAutomaton ''banana'' = Some (Inr A0) \<and>
      longest_common_substring A0 ''ananas'' = Some (Inr (A0, 5))"
    by (simp add: eval_defs)
  then obtain A0 where A0: "SuffixAutomaton ''banana'' = Some (Inr A0)"
    "longest_common_substring A0 ''ananas'' = Some (Inr (A0, 5))" by blast
  from lcs_correct[of "''banana''" "''ananas''"] obtain A
    where A: "SuffixAutomaton ''banana'' = Some (Inr A)"
      and r: "longest_common_substring A ''ananas'' = Some (Inr (A, int (lcs_brute ''banana'' ''ananas'')))"
      and wmax: "\<forall>w. sublist w ''banana'' \<and> sublist w ''ananas'' \<longrightarrow> length w \<le> lcs_brute ''banana'' ''ananas''"
    by blast
  have eq: "A = A0" using A A0(1) by simp
  have b: "lcs_brute ''banana'' ''ananas'' = 5" using r A0(2) unfolding eq by simp
  have s1: "sublist ''anana'' ''banana''" using sublist_appendI[of "''anana''" "''b''" "[]"] by simp
  have s2: "sublist ''anana'' ''ananas''" using sublist_appendI[of "''anana''" "[]" "''s''"] by simp
  have "length ''anana'' \<le> lcs_brute ''banana'' ''ananas''"
    using wmax s1 s2 by (simp only: simp_thms)
  then show ?thesis using A0 b s1 s2 by blast
qed





end
